theory Spec2Isabelle
  imports Complex_Main "HOL-Library.Multiset"
begin

section \<open>Data model\<close>

text \<open>
  The program works on NumPy arrays of \<^verbatim>\<open>float64\<close>. Floating-point numbers are
  idealised as \<^typ>\<open>real\<close>: every arithmetic operation of the source is the exact
  operation on reals. Python integers are \<^typ>\<open>int\<close>. Every exception the modelled
  code can raise is a value of \<open>error\<close>, returned as \<open>Inl\<close>. \<open>ValueError\<close> is Python's
  invalid-value error; \<open>OverflowError\<close> is raised by \<^verbatim>\<open>float\<close> on an integer that is
  too large; \<open>ValueError\<close> and \<open>MemoryError\<close> are what an allocation may raise; and
  \<open>LinAlgError\<close> stands for what the external eigensolver may raise.
\<close>

datatype error =
  ZeroDivisionError | OverflowError | IndexError | ValueError | MemoryError | LinAlgError

text \<open>A two-dimensional \<^verbatim>\<open>ndarray\<close>: its shape and its rows.\<close>

record ndarray =
  nrows :: nat
  ncols :: nat
  rows :: "real list list"

text \<open>\<^verbatim>\<open>np.zeros((m, n), dtype=np.float64)\<close>\<close>

definition zeros :: "nat \<Rightarrow> nat \<Rightarrow> ndarray" where
  "zeros m n = \<lparr>nrows = m, ncols = n, rows = replicate m (replicate n 0)\<rparr>"

text \<open>
  NumPy resolves an integer index against an axis of length \<open>n\<close>: a negative index
  counts from the end, and an index outside \<open>[-n, n)\<close> raises \<^verbatim>\<open>IndexError\<close>.
\<close>

definition wrap_index :: "nat \<Rightarrow> int \<Rightarrow> error + nat" where
  "wrap_index n k =
     (if 0 \<le> k \<and> k < int n then Inr (nat k)
      else if - int n \<le> k \<and> k < 0 then Inr (nat (k + int n))
      else Inl IndexError)"

text \<open>\<^verbatim>\<open>H[r, c] = v\<close>\<close>

definition setitem :: "ndarray \<Rightarrow> int \<Rightarrow> int \<Rightarrow> real \<Rightarrow> error + ndarray" where
  "setitem H r c v =
     (case wrap_index (nrows H) r of
        Inl e \<Rightarrow> Inl e
      | Inr r' \<Rightarrow>
          (case wrap_index (ncols H) c of
             Inl e \<Rightarrow> Inl e
           | Inr c' \<Rightarrow> Inr (H\<lparr>rows := (rows H)[r' := (rows H ! r')[c' := v]]\<rparr>)))"

text \<open>Sequencing of statements that may raise.\<close>

definition bindE :: "error + 'a \<Rightarrow> ('a \<Rightarrow> error + 'b) \<Rightarrow> error + 'b" where
  "bindE m f = (case m of Inl e \<Rightarrow> Inl e | Inr x \<Rightarrow> f x)"

text \<open>\<^verbatim>\<open>for x in xs: body\<close>, the body updating the state or raising.\<close>

fun for_each :: "'a list \<Rightarrow> ('a \<Rightarrow> 's \<Rightarrow> error + 's) \<Rightarrow> 's \<Rightarrow> error + 's" where
  "for_each [] body s = Inr s"
| "for_each (x # xs) body s = bindE (body x s) (for_each xs body)"

text \<open>\<^verbatim>\<open>range(N)\<close>: the integers \<open>0, ..., N - 1\<close>, empty when \<open>N \<le> 0\<close>.\<close>

definition py_range :: "int \<Rightarrow> int list" where
  "py_range N = [0..N - 1]"

section \<open>The Hamiltonian builder\<close>

text \<open>The helper \<^verbatim>\<open>idx(i, j)\<close> of \<^verbatim>\<open>build_2d_hamiltonian\<close>.\<close>

definition idx :: "int \<Rightarrow> int \<Rightarrow> int \<Rightarrow> int" where
  "idx N i j = i * N + j"

text \<open>
  The helper \<^verbatim>\<open>V(i, j)\<close>; \<open>N\<close>, \<open>potential\<close> and \<open>dx\<close> are the variables of the
  enclosing function it reads. \<^verbatim>\<open>N/2\<close> is Python's true division.
\<close>

definition V :: "int \<Rightarrow> string \<Rightarrow> real \<Rightarrow> int \<Rightarrow> int \<Rightarrow> real" where
  "V N potential dx i j =
     (if potential = ''well'' then 0
      else if potential = ''harmonic'' then
        (let x = (of_int i - of_int N / 2) * dx;
             y = (of_int j - of_int N / 2) * dx
         in 4 * (x\<^sup>2 + y\<^sup>2))
      else 0)"

text \<open>The body of the inner loop, lines 42 to 53 of the source.\<close>

definition cell :: "int \<Rightarrow> string \<Rightarrow> real \<Rightarrow> real \<Rightarrow> int \<Rightarrow> int \<Rightarrow> ndarray \<Rightarrow> error + ndarray" where
  "cell N potential dx inv_dx2 i j H =
     (let row = idx N i j in
      bindE (setitem H row row (- 4 * inv_dx2 + V N potential dx i j)) (\<lambda>H.
      bindE (if i > 0 then setitem H row (idx N (i - 1) j) inv_dx2 else Inr H) (\<lambda>H.
      bindE (if i < N - 1 then setitem H row (idx N (i + 1) j) inv_dx2 else Inr H) (\<lambda>H.
      bindE (if j > 0 then setitem H row (idx N i (j - 1)) inv_dx2 else Inr H) (\<lambda>H.
            (if j < N - 1 then setitem H row (idx N i (j + 1)) inv_dx2 else Inr H))))))"

text \<open>
  \<^verbatim>\<open>build_2d_hamiltonian(N, potential)\<close> within the limits of the machine: the
  conversions \<^verbatim>\<open>float(N)\<close> and \<^verbatim>\<open>float(N * N)\<close> and the allocation by
  \<^verbatim>\<open>np.zeros\<close> are taken to succeed. The first statement divides by
  \<^verbatim>\<open>float(N)\<close>, which raises \<^verbatim>\<open>ZeroDivisionError\<close> for \<open>N = 0\<close>.
\<close>

definition build_2d_hamiltonian :: "int \<Rightarrow> string \<Rightarrow> error + ndarray" where
  "build_2d_hamiltonian N potential =
     (if N = 0 then Inl ZeroDivisionError
      else
        (let dx = 1 / of_int N;
             inv_dx2 = of_int (N * N);
             H = zeros (nat (N * N)) (nat (N * N))
         in for_each (py_range N)
              (\<lambda>i. for_each (py_range N) (\<lambda>j. cell N potential dx inv_dx2 i j)) H))"

text \<open>
  The same function with the three steps that depend on the size of \<open>N\<close> written out.
  \<^verbatim>\<open>float(n)\<close> of a Python integer raises \<^verbatim>\<open>OverflowError\<close> when \<open>n\<close> rounds
  beyond the largest double, that is when \<open>\<bar>n\<bar> \<ge> 2\<^sup>1\<^sup>0\<^sup>2\<^sup>4 - 2\<^sup>9\<^sup>7\<^sup>0\<close>. Dividing a float by
  the float zero raises \<^verbatim>\<open>ZeroDivisionError\<close>. Whether \<^verbatim>\<open>np.zeros((m, n))\<close>
  allocates depends on NumPy and on the memory of the machine: \<open>refuse m n\<close> is the
  error it raises for that shape, if any.
\<close>

definition float_limit :: int where
  "float_limit = 2 ^ 1024 - 2 ^ 970"

definition py_float :: "int \<Rightarrow> error + real" where
  "py_float n = (if \<bar>n\<bar> < float_limit then Inr (of_int n) else Inl OverflowError)"

definition float_div :: "real \<Rightarrow> real \<Rightarrow> error + real" where
  "float_div a b = (if b = 0 then Inl ZeroDivisionError else Inr (a / b))"

definition np_zeros :: "(nat \<Rightarrow> nat \<Rightarrow> error option) \<Rightarrow> nat \<Rightarrow> nat \<Rightarrow> error + ndarray" where
  "np_zeros refuse m n = (case refuse m n of Some e \<Rightarrow> Inl e | None \<Rightarrow> Inr (zeros m n))"

definition build_2d_hamiltonian_machine ::
  "(nat \<Rightarrow> nat \<Rightarrow> error option) \<Rightarrow> int \<Rightarrow> string \<Rightarrow> error + ndarray" where
  "build_2d_hamiltonian_machine refuse N potential =
     bindE (py_float N) (\<lambda>fN.
     bindE (float_div 1 fN) (\<lambda>dx.
     bindE (py_float (N * N)) (\<lambda>inv_dx2.
     bindE (np_zeros refuse (nat (N * N)) (nat (N * N))) (\<lambda>H.
       for_each (py_range N)
         (\<lambda>i. for_each (py_range N) (\<lambda>j. cell N potential dx inv_dx2 i j)) H))))"

text \<open>A machine on which every allocation succeeds.\<close>

definition ample_memory :: "nat \<Rightarrow> nat \<Rightarrow> error option" where
  "ample_memory m n = None"

section \<open>The eigen solver wrapper\<close>

text \<open>
  \<^verbatim>\<open>np.argsort(vals)\<close>: indices that sort \<open>vals\<close> ascending. Ties are kept in index
  order here; NumPy's default sort leaves the order of ties open.
\<close>

definition argsort :: "real list \<Rightarrow> nat list" where
  "argsort vals = sort_key (\<lambda>k. vals ! k) [0..<length vals]"

text \<open>\<^verbatim>\<open>vals[idx_sorted]\<close>\<close>

definition take_items :: "real list \<Rightarrow> nat list \<Rightarrow> error + real list" where
  "take_items vals ks =
     (if \<forall>k \<in> set ks. k < length vals then Inr (map (\<lambda>k. vals ! k) ks) else Inl IndexError)"

text \<open>\<^verbatim>\<open>vecs[:, idx_sorted]\<close>\<close>

definition take_cols :: "ndarray \<Rightarrow> nat list \<Rightarrow> error + ndarray" where
  "take_cols A ks =
     (if \<forall>k \<in> set ks. k < ncols A
      then Inr \<lparr>nrows = nrows A, ncols = length ks,
                rows = map (\<lambda>row. map (\<lambda>k. row ! k) ks) (rows A)\<rparr>
      else Inl IndexError)"

text \<open>
  The length of the slice \<^verbatim>\<open>[:n]\<close> of a sequence of length \<open>len\<close>: a negative \<open>n\<close>
  counts from the end, and the bound is clipped to the sequence.
\<close>

definition slice_stop :: "nat \<Rightarrow> int \<Rightarrow> nat" where
  "slice_stop len n = (if n < 0 then nat (int len + n) else min len (nat n))"

text \<open>\<^verbatim>\<open>vals_sorted[:n_eigs]\<close> and \<^verbatim>\<open>vecs_sorted[:, :n_eigs]\<close>\<close>

definition slice_items :: "real list \<Rightarrow> int \<Rightarrow> real list" where
  "slice_items vals n = take (slice_stop (length vals) n) vals"

definition slice_cols :: "ndarray \<Rightarrow> int \<Rightarrow> ndarray" where
  "slice_cols A n =
     \<lparr>nrows = nrows A, ncols = slice_stop (ncols A) n,
      rows = map (take (slice_stop (ncols A) n)) (rows A)\<rparr>"

text \<open>
  \<^verbatim>\<open>solve_eigen(N, potential, n_eigs)\<close>. The dense symmetric eigensolver
  \<^verbatim>\<open>scipy.linalg.eigh\<close> is outside the repository: it is the parameter \<open>eigh\<close>,
  which returns the eigenvalues and the matrix whose columns are the eigenvectors, or
  raises. \<open>n_eigs\<close> is \<open>None\<close> when the argument is omitted.
\<close>

definition solve_eigen ::
  "(ndarray \<Rightarrow> error + real list \<times> ndarray) \<Rightarrow> int \<Rightarrow> string \<Rightarrow> int option
     \<Rightarrow> error + real list \<times> ndarray" where
  "solve_eigen eigh N potential n_eigs =
     bindE (build_2d_hamiltonian N potential) (\<lambda>H.
     bindE (eigh H) (\<lambda>(vals, vecs).
       (let idx_sorted = argsort vals in
        bindE (take_items vals idx_sorted) (\<lambda>vals_sorted.
        bindE (take_cols vecs idx_sorted) (\<lambda>vecs_sorted.
          (case n_eigs of
             None \<Rightarrow> Inr (vals_sorted, vecs_sorted)
           | Some n \<Rightarrow> Inr (slice_items vals_sorted n, slice_cols vecs_sorted n)))))))"

section \<open>Auxiliary notions for the proofs\<close>

text \<open>
  An array is well shaped when its rows agree with its declared shape. \<open>entry\<close> reads
  one element; \<open>put\<close> is the in-range effect of \<open>setitem\<close>; \<open>cell_pure\<close> is the
  effect of one pass of the loop body when no index is out of range; \<open>stencil\<close> is
  the value that pass leaves at column \<open>c\<close> of its row.
\<close>

definition well_shaped :: "ndarray \<Rightarrow> bool" where
  "well_shaped A \<longleftrightarrow> length (rows A) = nrows A \<and> (\<forall>row \<in> set (rows A). length row = ncols A)"

definition entry :: "ndarray \<Rightarrow> nat \<Rightarrow> nat \<Rightarrow> real" where
  "entry A r c = rows A ! r ! c"

definition put :: "ndarray \<Rightarrow> nat \<Rightarrow> nat \<Rightarrow> real \<Rightarrow> ndarray" where
  "put H r c v = H\<lparr>rows := (rows H)[r := (rows H ! r)[c := v]]\<rparr>"

definition put_if :: "bool \<Rightarrow> ndarray \<Rightarrow> nat \<Rightarrow> nat \<Rightarrow> real \<Rightarrow> ndarray" where
  "put_if b H r c v = (if b then put H r c v else H)"

definition cell_pure :: "int \<Rightarrow> string \<Rightarrow> real \<Rightarrow> real \<Rightarrow> int \<Rightarrow> int \<Rightarrow> ndarray \<Rightarrow> ndarray" where
  "cell_pure N potential dx t i j H =
      put_if (j < N - 1)
        (put_if (j > 0)
          (put_if (i < N - 1)
            (put_if (i > 0)
              (put H (nat (idx N i j)) (nat (idx N i j)) (- 4 * t + V N potential dx i j))
              (nat (idx N i j)) (nat (idx N (i - 1) j)) t)
            (nat (idx N i j)) (nat (idx N (i + 1) j)) t)
          (nat (idx N i j)) (nat (idx N i (j - 1))) t)
        (nat (idx N i j)) (nat (idx N i (j + 1))) t"

definition stencil :: "int \<Rightarrow> string \<Rightarrow> real \<Rightarrow> real \<Rightarrow> int \<Rightarrow> int \<Rightarrow> nat \<Rightarrow> real \<Rightarrow> real" where
  "stencil N potential dx t i j c old =
     (if j < N - 1 \<and> c = nat (idx N i (j + 1)) then t
      else if j > 0 \<and> c = nat (idx N i (j - 1)) then t
      else if i < N - 1 \<and> c = nat (idx N (i + 1) j) then t
      else if i > 0 \<and> c = nat (idx N (i - 1) j) then t
      else if c = nat (idx N i j) then - 4 * t + V N potential dx i j
      else old)"

text \<open>
  The claims speak of the grid point of a row, of its axis neighbours inside the grid, of
  the sum of a row and of the columns a row is coupled to. \<open>grid_neighbour\<close> follows the
  words of the specification: two linear indices are neighbours when their grid points
  differ by one step along exactly one axis.
\<close>

definition grid_neighbour :: "int \<Rightarrow> nat \<Rightarrow> nat \<Rightarrow> bool" where
  "grid_neighbour N r c =
     (let i = int r div N; j = int r mod N; i' = int c div N; j' = int c mod N
      in (i' = i \<and> \<bar>j' - j\<bar> = 1) \<or> (j' = j \<and> \<bar>i' - i\<bar> = 1))"

definition in_grid_neighbours :: "int \<Rightarrow> int \<Rightarrow> int \<Rightarrow> nat" where
  "in_grid_neighbours N i j =
     (if j < N - 1 then 1 else 0) + (if j > 0 then 1 else 0) +
     (if i < N - 1 then 1 else 0) + (if i > 0 then 1 else 0)"

definition row_sum :: "ndarray \<Rightarrow> nat \<Rightarrow> real" where
  "row_sum H r = sum_list (rows H ! r)"

definition coupled_columns :: "ndarray \<Rightarrow> nat \<Rightarrow> nat list" where
  "coupled_columns H r = filter (\<lambda>c. c \<noteq> r \<and> entry H r c \<noteq> 0) [0..<ncols H]"

text \<open>
  \<open>permute_cols\<close> is the in-range effect of \<open>take_cols\<close>. \<open>eigh_hadamard\<close> is a
  stand-in for the external eigensolver on the \<open>2 \<times> 2\<close> grid with the \<open>well\<close>
  potential: it returns the four eigenpairs of that matrix, orthonormal, in an order
  that is not ascending.
\<close>

definition permute_cols :: "ndarray \<Rightarrow> nat list \<Rightarrow> ndarray" where
  "permute_cols A p =
     \<lparr>nrows = nrows A, ncols = length p, rows = map (\<lambda>row. map (\<lambda>k. row ! k) p) (rows A)\<rparr>"

definition eigh_hadamard :: "ndarray \<Rightarrow> error + real list \<times> ndarray" where
  "eigh_hadamard H =
     Inr ([- 8, - 24, - 16, - 16],
          \<lparr>nrows = 4, ncols = 4,
           rows = [[1 / 2, 1 / 2, 1 / 2, 1 / 2], [1 / 2, - 1 / 2, 1 / 2, - 1 / 2],
                   [1 / 2, - 1 / 2, - 1 / 2, 1 / 2], [1 / 2, 1 / 2, - 1 / 2, - 1 / 2]]\<rparr>)"

section \<open>The loop body and the loops\<close>

lemma idx_lower: "0 \<le> i \<Longrightarrow> 0 \<le> j \<Longrightarrow> 0 < N \<Longrightarrow> 0 \<le> idx N i j"
  by (simp add: idx_def)

lemma idx_upper:
  assumes "i < N" "j < N" "0 < N"
  shows "idx N i j < N * N"
proof -
  have "i * N \<le> (N - 1) * N"
    using assms by (intro mult_right_mono) auto
  then have "i * N + j < (N - 1) * N + N"
    using assms by linarith
  then show ?thesis
    by (simp add: idx_def algebra_simps)
qed

lemma idx_div: "0 \<le> j \<Longrightarrow> j < N \<Longrightarrow> idx N i j div N = i"
  by (simp add: idx_def)

lemma idx_mod: "0 \<le> j \<Longrightarrow> j < N \<Longrightarrow> idx N i j mod N = j"
  by (simp add: idx_def)

lemma idx_inj:
  assumes "0 \<le> j" "j < N" "0 \<le> j'" "j' < N" "idx N i j = idx N i' j'"
  shows "i = i' \<and> j = j'"
  using idx_div[OF assms(1,2), of i] idx_div[OF assms(3,4), of i']
    idx_mod[OF assms(1,2), of i] idx_mod[OF assms(3,4), of i'] assms(5)
  by simp

lemma well_shaped_zeros: "well_shaped (zeros m n)"
  by (simp add: well_shaped_def zeros_def)

lemma well_shaped_put: "well_shaped H \<Longrightarrow> well_shaped (put H r c v)"
  by (cases "r < nrows H") (auto simp: well_shaped_def put_def all_set_conv_all_nth nth_list_update)

lemma shape_put [simp]: "nrows (put H r c v) = nrows H" "ncols (put H r c v) = ncols H"
  by (simp_all add: put_def)

lemma entry_put:
  "well_shaped H \<Longrightarrow> r < nrows H \<Longrightarrow> c < ncols H \<Longrightarrow>
   entry (put H r c v) r' c' = (if r' = r \<and> c' = c then v else entry H r' c')"
  by (auto simp: well_shaped_def put_def entry_def nth_list_update all_set_conv_all_nth)

lemma setitem_put:
  "0 \<le> r \<Longrightarrow> r < int (nrows H) \<Longrightarrow> 0 \<le> c \<Longrightarrow> c < int (ncols H) \<Longrightarrow>
   setitem H r c v = Inr (put H (nat r) (nat c) v)"
  by (simp add: setitem_def wrap_index_def put_def)

lemma well_shaped_put_if: "well_shaped H \<Longrightarrow> well_shaped (put_if b H r c v)"
  by (simp add: put_if_def well_shaped_put)

lemma shape_put_if [simp]: "nrows (put_if b H r c v) = nrows H" "ncols (put_if b H r c v) = ncols H"
  by (simp_all add: put_if_def)

lemma entry_put_if:
  "well_shaped H \<Longrightarrow> r < nrows H \<Longrightarrow> (b \<Longrightarrow> c < ncols H) \<Longrightarrow>
   entry (put_if b H r c v) r' c' = (if b \<and> r' = r \<and> c' = c then v else entry H r' c')"
  by (simp add: put_if_def entry_put)

lemma guarded_setitem:
  "0 \<le> r \<Longrightarrow> r < int (nrows H) \<Longrightarrow> (b \<Longrightarrow> 0 \<le> c \<and> c < int (ncols H)) \<Longrightarrow>
   (if b then setitem H r c v else Inr H) = Inr (put_if b H (nat r) (nat c) v)"
  by (simp add: put_if_def setitem_put)

lemma bindE_Inr [simp]: "bindE (Inr x) f = f x"
  by (simp add: bindE_def)

lemma bindE_Inl [simp]: "bindE (Inl e) f = Inl e"
  by (simp add: bindE_def)

lemma grid_bounds:
  assumes g: "0 \<le> i" "i < N" "0 \<le> j" "j < N"
  shows "0 \<le> idx N i j" "idx N i j < N * N"
    and "0 < i \<Longrightarrow> 0 \<le> idx N (i - 1) j \<and> idx N (i - 1) j < N * N"
    and "i < N - 1 \<Longrightarrow> 0 \<le> idx N (i + 1) j \<and> idx N (i + 1) j < N * N"
    and "0 < j \<Longrightarrow> 0 \<le> idx N i (j - 1) \<and> idx N i (j - 1) < N * N"
    and "j < N - 1 \<Longrightarrow> 0 \<le> idx N i (j + 1) \<and> idx N i (j + 1) < N * N"
proof -
  have N: "0 < N" using g by linarith
  show "0 \<le> idx N i j" "idx N i j < N * N"
    using idx_lower[OF g(1) g(3) N] idx_upper[OF g(2) g(4) N] by simp_all
  show "0 < i \<Longrightarrow> 0 \<le> idx N (i - 1) j \<and> idx N (i - 1) j < N * N"
    using idx_lower[of "i - 1" j N] idx_upper[of "i - 1" N j] g N by simp
  show "i < N - 1 \<Longrightarrow> 0 \<le> idx N (i + 1) j \<and> idx N (i + 1) j < N * N"
    using idx_lower[of "i + 1" j N] idx_upper[of "i + 1" N j] g N by simp
  show "0 < j \<Longrightarrow> 0 \<le> idx N i (j - 1) \<and> idx N i (j - 1) < N * N"
    using idx_lower[of i "j - 1" N] idx_upper[of i N "j - 1"] g N by simp
  show "j < N - 1 \<Longrightarrow> 0 \<le> idx N i (j + 1) \<and> idx N i (j + 1) < N * N"
    using idx_lower[of i "j + 1" N] idx_upper[of i N "j + 1"] g N by simp
qed

lemma in_shape: "0 \<le> k \<and> k < M \<Longrightarrow> n = nat M \<Longrightarrow> 0 \<le> k \<and> k < int n"
  by simp

lemma cell_eq_pure:
  assumes g: "0 \<le> i" "i < N" "0 \<le> j" "j < N"
    and s: "nrows H = nat (N * N)" "ncols H = nat (N * N)"
  shows "cell N potential dx t i j H = Inr (cell_pure N potential dx t i j H)"
proof -
  note b = grid_bounds[OF g]
  define row where "row = idx N i j"
  have r: "0 \<le> row" "row < int n" if "n = nat (N * N)" for n
    using b(1,2) that by (simp_all add: row_def)
  define H0 where "H0 = put H (nat row) (nat row) (- 4 * t + V N potential dx i j)"
  define H1 where "H1 = put_if (i > 0) H0 (nat row) (nat (idx N (i - 1) j)) t"
  define H2 where "H2 = put_if (i < N - 1) H1 (nat row) (nat (idx N (i + 1) j)) t"
  define H3 where "H3 = put_if (j > 0) H2 (nat row) (nat (idx N i (j - 1))) t"
  define H4 where "H4 = put_if (j < N - 1) H3 (nat row) (nat (idx N i (j + 1))) t"
  have sh: "nrows H0 = nat (N * N)" "ncols H0 = nat (N * N)"
    "nrows H1 = nat (N * N)" "ncols H1 = nat (N * N)"
    "nrows H2 = nat (N * N)" "ncols H2 = nat (N * N)"
    "nrows H3 = nat (N * N)" "ncols H3 = nat (N * N)"
    by (simp_all add: H0_def H1_def H2_def H3_def s)
  have 0: "setitem H row row (- 4 * t + V N potential dx i j) = Inr H0"
    unfolding H0_def using r[OF s(1)] r[OF s(2)] by (intro setitem_put) simp_all
  have 1: "(if i > 0 then setitem H0 row (idx N (i - 1) j) t else Inr H0) = Inr H1"
    unfolding H1_def using r[OF sh(1)] in_shape[OF b(3) sh(2)]
    by (intro guarded_setitem) simp_all
  have 2: "(if i < N - 1 then setitem H1 row (idx N (i + 1) j) t else Inr H1) = Inr H2"
    unfolding H2_def using r[OF sh(3)] in_shape[OF b(4) sh(4)]
    by (intro guarded_setitem) simp_all
  have 3: "(if j > 0 then setitem H2 row (idx N i (j - 1)) t else Inr H2) = Inr H3"
    unfolding H3_def using r[OF sh(5)] in_shape[OF b(5) sh(6)]
    by (intro guarded_setitem) simp_all
  have 4: "(if j < N - 1 then setitem H3 row (idx N i (j + 1)) t else Inr H3) = Inr H4"
    unfolding H4_def using r[OF sh(7)] in_shape[OF b(6) sh(8)]
    by (intro guarded_setitem) simp_all
  have "cell N potential dx t i j H = Inr H4"
    unfolding cell_def Let_def row_def[symmetric]
    by (simp only: 0 1 2 3 4 bindE_Inr)
  moreover have "cell_pure N potential dx t i j H = H4"
    unfolding cell_pure_def row_def[symmetric] H4_def H3_def H2_def H1_def H0_def ..
  ultimately show ?thesis by simp
qed

lemma cell_pure_shape:
  "nrows (cell_pure N potential dx t i j H) = nrows H"
  "ncols (cell_pure N potential dx t i j H) = ncols H"
  by (simp_all add: cell_pure_def)

lemma well_shaped_cell_pure:
  "well_shaped H \<Longrightarrow> well_shaped (cell_pure N potential dx t i j H)"
  unfolding cell_pure_def by (intro well_shaped_put_if well_shaped_put)

lemma if_chain:
  "(if b4 \<and> P \<and> c4 then t
    else if b3 \<and> P \<and> c3 then t
    else if b2 \<and> P \<and> c2 then t
    else if b1 \<and> P \<and> c1 then t
    else if P \<and> c0 then d else old) =
   (if P then (if b4 \<and> c4 then t
               else if b3 \<and> c3 then t
               else if b2 \<and> c2 then t
               else if b1 \<and> c1 then t
               else if c0 then d else old)
    else (old::real))"
  by (cases P) simp_all

lemma entry_cell_pure:
  assumes g: "0 \<le> i" "i < N" "0 \<le> j" "j < N"
    and s: "nrows H = nat (N * N)" "ncols H = nat (N * N)" and w: "well_shaped H"
  shows "entry (cell_pure N potential dx t i j H) r c =
           (if r = nat (idx N i j) then stencil N potential dx t i j c (entry H r c)
            else entry H r c)"
proof -
  note b = grid_bounds[OF g]
  define row where "row = nat (idx N i j)"
  have r: "row < n" if "n = nat (N * N)" for n
    using b(1,2) that by (simp add: row_def)
  have k: "nat x < n" if "0 \<le> x \<and> x < N * N" "n = nat (N * N)" for x n
    using that by simp
  define H0 where "H0 = put H row row (- 4 * t + V N potential dx i j)"
  define H1 where "H1 = put_if (i > 0) H0 row (nat (idx N (i - 1) j)) t"
  define H2 where "H2 = put_if (i < N - 1) H1 row (nat (idx N (i + 1) j)) t"
  define H3 where "H3 = put_if (j > 0) H2 row (nat (idx N i (j - 1))) t"
  define H4 where "H4 = put_if (j < N - 1) H3 row (nat (idx N i (j + 1))) t"
  have sh: "nrows H0 = nat (N * N)" "ncols H0 = nat (N * N)"
    "nrows H1 = nat (N * N)" "ncols H1 = nat (N * N)"
    "nrows H2 = nat (N * N)" "ncols H2 = nat (N * N)"
    "nrows H3 = nat (N * N)" "ncols H3 = nat (N * N)"
    by (simp_all add: H0_def H1_def H2_def H3_def s)
  have w0: "well_shaped H0" unfolding H0_def by (intro well_shaped_put w)
  have w1: "well_shaped H1" unfolding H1_def by (intro well_shaped_put_if w0)
  have w2: "well_shaped H2" unfolding H2_def by (intro well_shaped_put_if w1)
  have w3: "well_shaped H3" unfolding H3_def by (intro well_shaped_put_if w2)
  have e0: "entry H0 r c = (if r = row \<and> c = row then - 4 * t + V N potential dx i j else entry H r c)"
    unfolding H0_def by (rule entry_put[OF w r[OF s(1)] r[OF s(2)]])
  have e1: "entry H1 r c = (if i > 0 \<and> r = row \<and> c = nat (idx N (i - 1) j) then t else entry H0 r c)"
    unfolding H1_def by (rule entry_put_if[OF w0 r[OF sh(1)] k[OF b(3) sh(2)]])
  have e2: "entry H2 r c = (if i < N - 1 \<and> r = row \<and> c = nat (idx N (i + 1) j) then t else entry H1 r c)"
    unfolding H2_def by (rule entry_put_if[OF w1 r[OF sh(3)] k[OF b(4) sh(4)]])
  have e3: "entry H3 r c = (if j > 0 \<and> r = row \<and> c = nat (idx N i (j - 1)) then t else entry H2 r c)"
    unfolding H3_def by (rule entry_put_if[OF w2 r[OF sh(5)] k[OF b(5) sh(6)]])
  have e4: "entry H4 r c = (if j < N - 1 \<and> r = row \<and> c = nat (idx N i (j + 1)) then t else entry H3 r c)"
    unfolding H4_def by (rule entry_put_if[OF w3 r[OF sh(7)] k[OF b(6) sh(8)]])
  have c: "cell_pure N potential dx t i j H = H4"
    unfolding cell_pure_def row_def[symmetric] H4_def H3_def H2_def H1_def H0_def ..
  show ?thesis
    unfolding c stencil_def row_def[symmetric] e4 e3 e2 e1 e0 by (rule if_chain)
qed

lemma for_each_append:
  "for_each (xs @ ys) body s = bindE (for_each xs body s) (for_each ys body)"
proof (induction xs arbitrary: s)
  case Nil
  show ?case by simp
next
  case (Cons x xs)
  show ?case
    by (cases "body x s") (simp_all add: Cons.IH)
qed

lemma for_each_map: "for_each (map g xs) body s = for_each xs (\<lambda>x. body (g x)) s"
proof (induction xs arbitrary: s)
  case Nil
  show ?case by simp
next
  case (Cons x xs)
  show ?case
    by (cases "body (g x) s") (simp_all add: Cons.IH)
qed

lemma for_each_product:
  "for_each xs (\<lambda>i. for_each ys (body i)) s =
   for_each (List.product xs ys) (\<lambda>(i, j). body i j) s"
proof (induction xs arbitrary: s)
  case Nil
  show ?case by simp
next
  case (Cons x xs)
  show ?case
    by (cases "for_each ys (body x) s") (simp_all add: for_each_append for_each_map Cons.IH)
qed

lemma grid_point_iff:
  assumes g: "0 \<le> a" "a < N" "0 \<le> b" "b < N"
  shows "r = nat (idx N a b) \<longleftrightarrow> (int r div N, int r mod N) = (a, b)"
proof
  assume "r = nat (idx N a b)"
  then have "int r = idx N a b"
    using grid_bounds(1)[OF g] by simp
  then show "(int r div N, int r mod N) = (a, b)"
    using idx_div[OF g(3,4), of a] idx_mod[OF g(3,4), of a] by simp
next
  assume "(int r div N, int r mod N) = (a, b)"
  then have "a = int r div N" "b = int r mod N" by simp_all
  then have "idx N a b = int r"
    by (simp add: idx_def)
  then show "r = nat (idx N a b)" by simp
qed

lemma for_each_cells:
  assumes "\<forall>(i, j) \<in> set ps. 0 \<le> i \<and> i < N \<and> 0 \<le> j \<and> j < N" "distinct ps"
    and "nrows H = nat (N * N)" "ncols H = nat (N * N)" "well_shaped H"
  shows "\<exists>H'. for_each ps (\<lambda>(i, j). cell N potential dx t i j) H = Inr H' \<and>
           nrows H' = nat (N * N) \<and> ncols H' = nat (N * N) \<and> well_shaped H' \<and>
           (\<forall>r c. entry H' r c =
              (if (int r div N, int r mod N) \<in> set ps
               then stencil N potential dx t (int r div N) (int r mod N) c (entry H r c)
               else entry H r c))"
  using assms
proof (induction ps arbitrary: H)
  case Nil
  then show ?case by simp
next
  case (Cons p ps)
  obtain a b where p: "p = (a, b)" by (cases p)
  have g: "0 \<le> a" "a < N" "0 \<le> b" "b < N"
    using Cons.prems(1) p by simp_all
  define H1 where "H1 = cell_pure N potential dx t a b H"
  have step: "cell N potential dx t a b H = Inr H1"
    unfolding H1_def using cell_eq_pure[OF g Cons.prems(3,4)] .
  have s1: "nrows H1 = nat (N * N)" "ncols H1 = nat (N * N)" "well_shaped H1"
    unfolding H1_def using Cons.prems(3,4,5)
    by (simp_all add: cell_pure_shape well_shaped_cell_pure)
  have rest: "\<forall>(i, j) \<in> set ps. 0 \<le> i \<and> i < N \<and> 0 \<le> j \<and> j < N" "distinct ps"
    using Cons.prems(1,2) by simp_all
  from Cons.IH[OF rest s1] obtain H' where
    run': "for_each ps (\<lambda>(i, j). cell N potential dx t i j) H1 = Inr H'"
    and sh': "nrows H' = nat (N * N)" "ncols H' = nat (N * N)" "well_shaped H'"
    and ent': "\<And>r c. entry H' r c =
              (if (int r div N, int r mod N) \<in> set ps
               then stencil N potential dx t (int r div N) (int r mod N) c (entry H1 r c)
               else entry H1 r c)"
    by blast
  have e1: "entry H1 r c =
      (if (int r div N, int r mod N) = (a, b)
       then stencil N potential dx t a b c (entry H r c) else entry H r c)" for r c
    unfolding H1_def entry_cell_pure[OF g Cons.prems(3,4,5)] grid_point_iff[OF g] ..
  have nin: "(a, b) \<notin> set ps"
    using Cons.prems(2) p by simp
  have run: "for_each (p # ps) (\<lambda>(i, j). cell N potential dx t i j) H = Inr H'"
    using step run' p by simp
  have ent: "entry H' r c =
              (if (int r div N, int r mod N) \<in> set (p # ps)
               then stencil N potential dx t (int r div N) (int r mod N) c (entry H r c)
               else entry H r c)" for r c
  proof (cases "(int r div N, int r mod N) = (a, b)")
    case True
    then have "entry H' r c = stencil N potential dx t a b c (entry H r c)"
      using ent'[of r c] e1[of r c] nin by simp
    then show ?thesis
      using True p by simp
  next
    case False
    have "entry H1 r c = entry H r c"
      by (simp only: e1 False if_False)
    then show ?thesis
      using ent'[of r c] False p by auto
  qed
  show ?case
  proof (intro exI[of _ H'] conjI allI)
    show "for_each (p # ps) (\<lambda>(i, j). cell N potential dx t i j) H = Inr H'"
      by (rule run)
  qed (rule sh' ent)+
qed

lemma set_py_range: "set (py_range N) = {0..N - 1}"
  by (simp add: py_range_def)

lemma distinct_py_range: "distinct (py_range N)"
  by (simp add: py_range_def)

lemma entry_zeros: "r < m \<Longrightarrow> c < n \<Longrightarrow> entry (zeros m n) r c = 0"
  by (simp add: entry_def zeros_def)

lemma build_entries:
  assumes N: "1 \<le> N"
  shows "\<exists>H. build_2d_hamiltonian N potential = Inr H \<and>
           nrows H = nat (N * N) \<and> ncols H = nat (N * N) \<and> well_shaped H \<and>
           (\<forall>r < nat (N * N). \<forall>c < nat (N * N).
              entry H r c =
                stencil N potential (1 / of_int N) (of_int (N * N))
                  (int r div N) (int r mod N) c 0)"
proof -
  let ?ps = "List.product (py_range N) (py_range N)"
  let ?Z = "zeros (nat (N * N)) (nat (N * N))"
  have g: "\<forall>(i, j) \<in> set ?ps. 0 \<le> i \<and> i < N \<and> 0 \<le> j \<and> j < N"
    by (auto simp: set_py_range)
  have d: "distinct ?ps"
    by (intro distinct_product distinct_py_range)
  have z: "nrows ?Z = nat (N * N)" "ncols ?Z = nat (N * N)" "well_shaped ?Z"
    by (simp_all add: zeros_def well_shaped_zeros[unfolded zeros_def])
  from for_each_cells[OF g d z, of potential "1 / of_int N" "of_int (N * N)"]
  obtain H where
    run: "for_each ?ps (\<lambda>(i, j). cell N potential (1 / of_int N) (of_int (N * N)) i j) ?Z = Inr H"
    and sh: "nrows H = nat (N * N)" "ncols H = nat (N * N)" "well_shaped H"
    and ent: "\<And>r c. entry H r c =
              (if (int r div N, int r mod N) \<in> set ?ps
               then stencil N potential (1 / of_int N) (of_int (N * N))
                      (int r div N) (int r mod N) c (entry ?Z r c)
               else entry ?Z r c)"
    by blast
  have b: "build_2d_hamiltonian N potential = Inr H"
    using N run by (simp add: build_2d_hamiltonian_def Let_def for_each_product)
  have mem: "(int r div N, int r mod N) \<in> set ?ps" if "r < nat (N * N)" for r
  proof -
    have m: "0 \<le> int r mod N" "int r mod N < N"
      using N by simp_all
    have "int r < N * N" using that by simp
    moreover have "N * (int r div N) + int r mod N = int r"
      by simp
    ultimately have "N * (int r div N) < N * N"
      using m(1) by linarith
    then have "int r div N < N"
      using N by (simp add: mult_less_cancel_left_pos)
    moreover have "0 \<le> int r div N"
      using N by (simp add: pos_imp_zdiv_nonneg_iff)
    ultimately show ?thesis
      using m
      by (simp add: set_py_range)
  qed
  have "entry H r c = stencil N potential (1 / of_int N) (of_int (N * N))
                  (int r div N) (int r mod N) c 0"
    if "r < nat (N * N)" "c < nat (N * N)" for r c
    using ent[of r c] mem[OF that(1)] entry_zeros[OF that] by simp
  then show ?thesis
    using b sh by blast
qed

section \<open>The entries of the built matrix\<close>

lemma div_mod_grid:
  assumes "1 \<le> N" "r < nat (N * N)"
  shows "0 \<le> int r div N" "int r div N < N" "0 \<le> int r mod N" "int r mod N < N"
    "idx N (int r div N) (int r mod N) = int r"
proof -
  have m: "0 \<le> int r mod N" "int r mod N < N"
    using assms(1) by simp_all
  have "int r < N * N" using assms(2) by simp
  moreover have "N * (int r div N) + int r mod N = int r"
    by simp
  ultimately have "N * (int r div N) < N * N"
    using m(1) by linarith
  then show "int r div N < N"
    using assms(1) by (simp add: mult_less_cancel_left_pos)
  show "0 \<le> int r div N"
    using assms(1) by (simp add: pos_imp_zdiv_nonneg_iff)
  show "0 \<le> int r mod N" "int r mod N < N" by (rule m)+
  show "idx N (int r div N) (int r mod N) = int r"
    by (simp add: idx_def)
qed

lemma idx_shift:
  "idx N i (j + 1) = idx N i j + 1" "idx N i (j - 1) = idx N i j - 1"
  "idx N (i + 1) j = idx N i j + N" "idx N (i - 1) j = idx N i j - N"
  by (simp_all add: idx_def algebra_simps)

lemma stencil_at:
  assumes N: "1 \<le> N" and r: "r < nat (N * N)"
  shows "stencil N potential dx t (int r div N) (int r mod N) c old =
     (if int r mod N < N - 1 \<and> int c = int r + 1 then t
      else if int r mod N > 0 \<and> int c = int r - 1 then t
      else if int r div N < N - 1 \<and> int c = int r + N then t
      else if int r div N > 0 \<and> int c = int r - N then t
      else if c = r then - 4 * t + V N potential dx (int r div N) (int r mod N)
      else old)"
proof -
  note g = div_mod_grid[OF N r]
  note b = grid_bounds[OF g(1,2,3,4), unfolded idx_shift g(5)]
  have 1: "c = nat (int r + 1) \<longleftrightarrow> int c = int r + 1" by linarith
  have 2: "int r mod N > 0 \<Longrightarrow> c = nat (int r - 1) \<longleftrightarrow> int c = int r - 1"
    using b(5) by linarith
  have 3: "c = nat (int r + N) \<longleftrightarrow> int c = int r + N" using N by linarith
  have 4: "int r div N > 0 \<Longrightarrow> c = nat (int r - N) \<longleftrightarrow> int c = int r - N"
    using b(3) by linarith
  show ?thesis
    unfolding stencil_def idx_shift g(5) using 2 4 by (simp add: 1 3 cong: conj_cong)
qed

lemma build_entry:
  assumes "1 \<le> N" "build_2d_hamiltonian N potential = Inr H"
    "r < nat (N * N)" "c < nat (N * N)"
  shows "entry H r c =
           stencil N potential (1 / of_int N) (of_int (N * N)) (int r div N) (int r mod N) c 0"
  using build_entries[OF assms(1), of potential] assms(2,3,4) by auto

lemma build_shape:
  assumes "1 \<le> N" "build_2d_hamiltonian N potential = Inr H"
  shows "nrows H = nat (N * N)" "ncols H = nat (N * N)" "well_shaped H"
  using build_entries[OF assms(1), of potential] assms(2) by auto

lemma neighbour_cases:
  assumes g: "0 \<le> i" "i < N" "0 \<le> j" "j < N"
    and g': "0 \<le> i'" "i' < N" "0 \<le> j'" "j' < N"
  shows "(j < N - 1 \<and> idx N i' j' = idx N i j + 1) \<longleftrightarrow> (i' = i \<and> j' = j + 1)"
    and "(j > 0 \<and> idx N i' j' = idx N i j - 1) \<longleftrightarrow> (i' = i \<and> j' = j - 1)"
    and "(i < N - 1 \<and> idx N i' j' = idx N i j + N) \<longleftrightarrow> (i' = i + 1 \<and> j' = j)"
    and "(i > 0 \<and> idx N i' j' = idx N i j - N) \<longleftrightarrow> (i' = i - 1 \<and> j' = j)"
proof -
  show "(j < N - 1 \<and> idx N i' j' = idx N i j + 1) \<longleftrightarrow> (i' = i \<and> j' = j + 1)"
  proof
    assume a: "j < N - 1 \<and> idx N i' j' = idx N i j + 1"
    then have "idx N i' j' = idx N i (j + 1)" by (simp add: idx_shift)
    from idx_inj[OF g'(3,4) _ _ this] a g show "i' = i \<and> j' = j + 1" by simp
  next
    assume "i' = i \<and> j' = j + 1"
    then show "j < N - 1 \<and> idx N i' j' = idx N i j + 1"
      using g' by (simp add: idx_shift)
  qed
  show "(j > 0 \<and> idx N i' j' = idx N i j - 1) \<longleftrightarrow> (i' = i \<and> j' = j - 1)"
  proof
    assume a: "j > 0 \<and> idx N i' j' = idx N i j - 1"
    then have "idx N i' j' = idx N i (j - 1)" by (simp add: idx_shift)
    from idx_inj[OF g'(3,4) _ _ this] a g show "i' = i \<and> j' = j - 1" by simp
  next
    assume "i' = i \<and> j' = j - 1"
    then show "j > 0 \<and> idx N i' j' = idx N i j - 1"
      using g' by (simp add: idx_shift)
  qed
  show "(i < N - 1 \<and> idx N i' j' = idx N i j + N) \<longleftrightarrow> (i' = i + 1 \<and> j' = j)"
  proof
    assume a: "i < N - 1 \<and> idx N i' j' = idx N i j + N"
    then have "idx N i' j' = idx N (i + 1) j" by (simp add: idx_shift)
    from idx_inj[OF g'(3,4) g(3,4) this] show "i' = i + 1 \<and> j' = j" .
  next
    assume "i' = i + 1 \<and> j' = j"
    then show "i < N - 1 \<and> idx N i' j' = idx N i j + N"
      using g' by (simp add: idx_shift)
  qed
  show "(i > 0 \<and> idx N i' j' = idx N i j - N) \<longleftrightarrow> (i' = i - 1 \<and> j' = j)"
  proof
    assume a: "i > 0 \<and> idx N i' j' = idx N i j - N"
    then have "idx N i' j' = idx N (i - 1) j" by (simp add: idx_shift)
    from idx_inj[OF g'(3,4) g(3,4) this] show "i' = i - 1 \<and> j' = j" .
  next
    assume "i' = i - 1 \<and> j' = j"
    then show "i > 0 \<and> idx N i' j' = idx N i j - N"
      using g' by (simp add: idx_shift)
  qed
qed

lemma adjacent_cases:
  "((i' = i \<and> \<bar>j' - j\<bar> = 1) \<or> (j' = j \<and> \<bar>i' - i\<bar> = 1)) \<longleftrightarrow>
   ((i' = i \<and> j' = j + 1) \<or> (i' = i \<and> j' = j - 1) \<or>
    (i' = i + 1 \<and> j' = j) \<or> (i' = i - 1 \<and> j' = j))" for i j i' j' :: int
  by (auto simp: abs_if)

lemma adjacent_sym:
  "((i' = i \<and> \<bar>j' - j\<bar> = 1) \<or> (j' = j \<and> \<bar>i' - i\<bar> = 1)) \<longleftrightarrow>
   ((i = i' \<and> \<bar>j - j'\<bar> = 1) \<or> (j = j' \<and> \<bar>i - i'\<bar> = 1))" for i j i' j' :: int
  by (auto simp: abs_if)

lemma if_chain_or:
  "c \<noteq> r \<Longrightarrow>
   (if a1 then t else if a2 then t else if a3 then t else if a4 then t
    else if c = r then d else z) =
   (if a1 \<or> a2 \<or> a3 \<or> a4 then t else (z::real))"
  by simp

lemma grid_neighbour_stencil:
  assumes N: "1 \<le> N" and r: "r < nat (N * N)" and c: "c < nat (N * N)"
  shows "grid_neighbour N r c \<longleftrightarrow>
      (int r mod N < N - 1 \<and> int c = int r + 1) \<or> (int r mod N > 0 \<and> int c = int r - 1) \<or>
      (int r div N < N - 1 \<and> int c = int r + N) \<or> (int r div N > 0 \<and> int c = int r - N)"
proof -
  note g = div_mod_grid[OF N r]
  note g' = div_mod_grid[OF N c]
  note nb = neighbour_cases[OF g(1,2,3,4) g'(1,2,3,4), unfolded g(5) g'(5)]
  show ?thesis
    unfolding nb grid_neighbour_def Let_def by (rule adjacent_cases)
qed

lemma offdiag_entry:
  assumes N: "1 \<le> N" and H: "build_2d_hamiltonian N potential = Inr H"
    and r: "r < nat (N * N)" and c: "c < nat (N * N)" and ne: "r \<noteq> c"
  shows "entry H r c = (if grid_neighbour N r c then of_int (N * N) else 0)"
  unfolding build_entry[OF N H r c] stencil_at[OF N r] grid_neighbour_stencil[OF N r c]
  using ne by (intro if_chain_or) simp

lemma grid_neighbour_sym: "grid_neighbour N r c \<longleftrightarrow> grid_neighbour N c r"
  unfolding grid_neighbour_def Let_def by (rule adjacent_sym)

lemma sum_single:
  fixes t :: "'a::comm_monoid_add" and n :: nat
  assumes "g \<Longrightarrow> a < n"
  shows "(\<Sum>c<n. if g \<and> c = a then t else 0) = (if g then t else 0)"
proof (cases g)
  case True
  then have "(\<Sum>c<n. if g \<and> c = a then t else 0) = (\<Sum>c\<in>{..<n}. if c = a then t else 0)"
    by simp
  also have "\<dots> = (if a \<in> {..<n} then t else 0)"
    by (rule sum.delta[where b = "\<lambda>_. t"]) (rule finite_lessThan)
  finally show ?thesis using True assms by simp
next
  case False
  then show ?thesis by simp
qed

lemma exclusive_chain:
  fixes t d :: "'a::comm_monoid_add"
  assumes "\<not> (a1 \<and> a2)" "\<not> (a1 \<and> a3)" "\<not> (a1 \<and> a4)" "\<not> (a2 \<and> a3)" "\<not> (a2 \<and> a4)"
    "\<not> (a3 \<and> a4)" "\<not> (a1 \<and> a0)" "\<not> (a2 \<and> a0)" "\<not> (a3 \<and> a0)" "\<not> (a4 \<and> a0)"
  shows "(if a1 then t else if a2 then t else if a3 then t else if a4 then t
          else if a0 then d else 0) =
         (if a1 then t else 0) + (if a2 then t else 0) + (if a3 then t else 0) +
         (if a4 then t else 0) + (if a0 then d else 0)"
proof (cases a1)
  case True
  then show ?thesis using assms(1,2,3,7) by simp
next
  case n1: False
  show ?thesis
  proof (cases a2)
    case True
    then show ?thesis using n1 assms(4,5,8) by simp
  next
    case n2: False
    show ?thesis
    proof (cases a3)
      case True
      then show ?thesis using n1 n2 assms(6,9) by simp
    next
      case n3: False
      show ?thesis
      proof (cases a4)
        case True
        then show ?thesis using n1 n2 n3 assms(10) by simp
      next
        case False
        then show ?thesis using n1 n2 n3 by simp
      qed
    qed
  qed
qed

lemma sum_five_point_aux:
  fixes t d :: "'a::comm_monoid_add" and n :: nat
  assumes rng: "g1 \<Longrightarrow> c1 < n" "g2 \<Longrightarrow> c2 < n" "g3 \<Longrightarrow> c3 < n" "g4 \<Longrightarrow> c4 < n" "c0 < n"
    and ne: "g1 \<Longrightarrow> g2 \<Longrightarrow> c1 \<noteq> c2" "g1 \<Longrightarrow> g3 \<Longrightarrow> c1 \<noteq> c3" "g1 \<Longrightarrow> g4 \<Longrightarrow> c1 \<noteq> c4"
      "g2 \<Longrightarrow> g3 \<Longrightarrow> c2 \<noteq> c3" "g2 \<Longrightarrow> g4 \<Longrightarrow> c2 \<noteq> c4" "g3 \<Longrightarrow> g4 \<Longrightarrow> c3 \<noteq> c4"
      "g1 \<Longrightarrow> c1 \<noteq> c0" "g2 \<Longrightarrow> c2 \<noteq> c0" "g3 \<Longrightarrow> c3 \<noteq> c0" "g4 \<Longrightarrow> c4 \<noteq> c0"
  shows "(\<Sum>c<n. if g1 \<and> c = c1 then t else if g2 \<and> c = c2 then t
                else if g3 \<and> c = c3 then t else if g4 \<and> c = c4 then t
                else if True \<and> c = c0 then d else 0) =
         (if g1 then t else 0) + (if g2 then t else 0) + (if g3 then t else 0) +
         (if g4 then t else 0) + (if True then d else 0)"
proof -
  have x: "\<not> ((g1 \<and> c = c1) \<and> (g2 \<and> c = c2))" "\<not> ((g1 \<and> c = c1) \<and> (g3 \<and> c = c3))"
    "\<not> ((g1 \<and> c = c1) \<and> (g4 \<and> c = c4))" "\<not> ((g2 \<and> c = c2) \<and> (g3 \<and> c = c3))"
    "\<not> ((g2 \<and> c = c2) \<and> (g4 \<and> c = c4))" "\<not> ((g3 \<and> c = c3) \<and> (g4 \<and> c = c4))"
    "\<not> ((g1 \<and> c = c1) \<and> (True \<and> c = c0))" "\<not> ((g2 \<and> c = c2) \<and> (True \<and> c = c0))"
    "\<not> ((g3 \<and> c = c3) \<and> (True \<and> c = c0))" "\<not> ((g4 \<and> c = c4) \<and> (True \<and> c = c0))" for c
    using ne by blast+
  have s: "(\<Sum>c<n. if True \<and> c = c0 then d else 0) = (if True then d else 0)"
    by (rule sum_single) (rule rng(5))
  have s1: "(\<Sum>c<n. if g1 \<and> c = c1 then t else 0) = (if g1 then t else 0)"
    by (rule sum_single) (rule rng(1))
  have s2: "(\<Sum>c<n. if g2 \<and> c = c2 then t else 0) = (if g2 then t else 0)"
    by (rule sum_single) (rule rng(2))
  have s3: "(\<Sum>c<n. if g3 \<and> c = c3 then t else 0) = (if g3 then t else 0)"
    by (rule sum_single) (rule rng(3))
  have s4: "(\<Sum>c<n. if g4 \<and> c = c4 then t else 0) = (if g4 then t else 0)"
    by (rule sum_single) (rule rng(4))
  show ?thesis
    unfolding exclusive_chain[OF x] sum.distrib s1 s2 s3 s4 s ..
qed

lemma sum_five_point:
  fixes t d :: "'a::comm_monoid_add" and n :: nat
  assumes rng: "g1 \<Longrightarrow> c1 < n" "g2 \<Longrightarrow> c2 < n" "g3 \<Longrightarrow> c3 < n" "g4 \<Longrightarrow> c4 < n" "c0 < n"
    and ne: "g1 \<Longrightarrow> g2 \<Longrightarrow> c1 \<noteq> c2" "g1 \<Longrightarrow> g3 \<Longrightarrow> c1 \<noteq> c3" "g1 \<Longrightarrow> g4 \<Longrightarrow> c1 \<noteq> c4"
      "g2 \<Longrightarrow> g3 \<Longrightarrow> c2 \<noteq> c3" "g2 \<Longrightarrow> g4 \<Longrightarrow> c2 \<noteq> c4" "g3 \<Longrightarrow> g4 \<Longrightarrow> c3 \<noteq> c4"
      "g1 \<Longrightarrow> c1 \<noteq> c0" "g2 \<Longrightarrow> c2 \<noteq> c0" "g3 \<Longrightarrow> c3 \<noteq> c0" "g4 \<Longrightarrow> c4 \<noteq> c0"
  shows "(\<Sum>c<n. if g1 \<and> c = c1 then t else if g2 \<and> c = c2 then t
                else if g3 \<and> c = c3 then t else if g4 \<and> c = c4 then t
                else if c = c0 then d else 0) =
         (if g1 then t else 0) + (if g2 then t else 0) + (if g3 then t else 0) +
         (if g4 then t else 0) + d"
proof -
  have "(\<Sum>c<n. if g1 \<and> c = c1 then t else if g2 \<and> c = c2 then t
                else if g3 \<and> c = c3 then t else if g4 \<and> c = c4 then t
                else if True \<and> c = c0 then d else 0) =
         (if g1 then t else 0) + (if g2 then t else 0) + (if g3 then t else 0) +
         (if g4 then t else 0) + (if True then d else 0)"
    by (rule sum_five_point_aux) (fact rng ne)+
  then show ?thesis
    unfolding simp_thms if_True .
qed

lemma stencil_sum:
  fixes t :: "'a::comm_monoid_add"
  assumes g: "0 \<le> i" "i < N" "0 \<le> j" "j < N" and n: "n = nat (N * N)"
  shows "(\<Sum>c<n. if j < N - 1 \<and> c = nat (idx N i (j + 1)) then t
                else if j > 0 \<and> c = nat (idx N i (j - 1)) then t
                else if i < N - 1 \<and> c = nat (idx N (i + 1) j) then t
                else if i > 0 \<and> c = nat (idx N (i - 1) j) then t
                else if c = nat (idx N i j) then d else 0) =
         (if j < N - 1 then t else 0) + (if j > 0 then t else 0) +
         (if i < N - 1 then t else 0) + (if i > 0 then t else 0) + d"
proof -
  note b = grid_bounds[OF g]
  define R where "R = idx N i j"
  note s = idx_shift[of N i j, folded R_def]
  have N: "1 \<le> N" using g by linarith
  have R: "0 \<le> R" "R < N * N" using b(1,2) by (simp_all add: R_def)
  have u: "0 < i \<Longrightarrow> N \<le> R" and l: "0 < j \<Longrightarrow> 1 \<le> R"
    and d: "i < N - 1 \<Longrightarrow> R + N < N * N" and rr: "j < N - 1 \<Longrightarrow> R + 1 < N * N"
    using b(3,4,5,6) unfolding s by simp_all
  have N2: "j < N - 1 \<Longrightarrow> 2 \<le> N" "0 < j \<Longrightarrow> 2 \<le> N"
    using g by linarith+
  show ?thesis
    unfolding s R_def[symmetric]
  proof (rule sum_five_point)
    show "j < N - 1 \<Longrightarrow> nat (R + 1) < n" using rr R n by simp
    show "0 < j \<Longrightarrow> nat (R - 1) < n" using R n by simp
    show "i < N - 1 \<Longrightarrow> nat (R + N) < n" using d R n by simp
    show "0 < i \<Longrightarrow> nat (R - N) < n" using R N n by simp
    show "nat R < n" using R n by simp
    show "j < N - 1 \<Longrightarrow> 0 < j \<Longrightarrow> nat (R + 1) \<noteq> nat (R - 1)" using R by linarith
    show "j < N - 1 \<Longrightarrow> i < N - 1 \<Longrightarrow> nat (R + 1) \<noteq> nat (R + N)" using R N2 by linarith
    show "j < N - 1 \<Longrightarrow> 0 < i \<Longrightarrow> nat (R + 1) \<noteq> nat (R - N)" using R N by linarith
    show "0 < j \<Longrightarrow> i < N - 1 \<Longrightarrow> nat (R - 1) \<noteq> nat (R + N)" using R N by linarith
    show "0 < j \<Longrightarrow> 0 < i \<Longrightarrow> nat (R - 1) \<noteq> nat (R - N)" using R N2 u by linarith
    show "i < N - 1 \<Longrightarrow> 0 < i \<Longrightarrow> nat (R + N) \<noteq> nat (R - N)" using R N by linarith
    show "j < N - 1 \<Longrightarrow> nat (R + 1) \<noteq> nat R" using R by linarith
    show "0 < j \<Longrightarrow> nat (R - 1) \<noteq> nat R" using R l by linarith
    show "i < N - 1 \<Longrightarrow> nat (R + N) \<noteq> nat R" using R N by linarith
    show "0 < i \<Longrightarrow> nat (R - N) \<noteq> nat R" using R N u by linarith
  qed
qed

lemma diag_entry:
  assumes N: "1 \<le> N" and H: "build_2d_hamiltonian N potential = Inr H"
    and r: "r < nat (N * N)"
  shows "entry H r r =
           - 4 * of_int (N * N) + V N potential (1 / of_int N) (int r div N) (int r mod N)"
  unfolding build_entry[OF N H r r] stencil_at[OF N r] using N by simp

lemma row_sum_entries:
  assumes "well_shaped H" "r < nrows H"
  shows "row_sum H r = (\<Sum>c<ncols H. entry H r c)"
proof -
  have "length (rows H ! r) = ncols H"
    using assms by (simp add: well_shaped_def)
  then show ?thesis
    by (simp add: row_sum_def entry_def sum_list_sum_nth atLeast0LessThan)
qed

lemma row_sum_build:
  assumes N: "1 \<le> N" and H: "build_2d_hamiltonian N potential = Inr H"
    and r: "r < nat (N * N)"
  shows "row_sum H r =
           of_nat (in_grid_neighbours N (int r div N) (int r mod N)) * of_int (N * N)
           - 4 * of_int (N * N) + V N potential (1 / of_int N) (int r div N) (int r mod N)"
proof -
  note g = div_mod_grid[OF N r]
  note s = build_shape[OF N H]
  define t :: real where "t = of_int (N * N)"
  define d where "d = - 4 * t + V N potential (1 / of_int N) (int r div N) (int r mod N)"
  have "row_sum H r = (\<Sum>c<nat (N * N). entry H r c)"
    using row_sum_entries[OF s(3)] r s(1,2) by simp
  also have "\<dots> = (\<Sum>c<nat (N * N).
      stencil N potential (1 / of_int N) t (int r div N) (int r mod N) c 0)"
    unfolding t_def by (intro sum.cong refl build_entry[OF N H r]) simp
  also have "\<dots> = (if int r mod N < N - 1 then t else 0) + (if int r mod N > 0 then t else 0) +
         (if int r div N < N - 1 then t else 0) + (if int r div N > 0 then t else 0) + d"
    unfolding stencil_def d_def[symmetric] by (rule stencil_sum[OF g(1,2,3,4) refl])
  also have "\<dots> = of_nat (in_grid_neighbours N (int r div N) (int r mod N)) * t + d"
    by (simp add: in_grid_neighbours_def)
  finally show ?thesis
    by (simp add: t_def d_def)
qed

lemma length_filter_upt: "length (filter P [0..<n]) = (\<Sum>c<n. if P c then 1 else 0)"
  by (induction n) simp_all

lemma coupled_chain:
  assumes "t \<noteq> (0::real)" "a1 \<Longrightarrow> c \<noteq> r" "a2 \<Longrightarrow> c \<noteq> r" "a3 \<Longrightarrow> c \<noteq> r" "a4 \<Longrightarrow> c \<noteq> r"
  shows "(if c \<noteq> r \<and> (if a1 then t else if a2 then t else if a3 then t else if a4 then t
                         else if c = r then d else 0) \<noteq> 0 then 1 else 0) =
         (if a1 then 1 else if a2 then 1 else if a3 then 1 else if a4 then 1
          else if c = r then 0 else (0::nat))"
  using assms by auto

lemma coupled_count:
  assumes N: "1 \<le> N" and H: "build_2d_hamiltonian N potential = Inr H"
    and r: "r < nat (N * N)"
  shows "length (coupled_columns H r) = in_grid_neighbours N (int r div N) (int r mod N)"
proof -
  note g = div_mod_grid[OF N r]
  note s = build_shape[OF N H]
  note b = grid_bounds[OF g(1,2,3,4), unfolded idx_shift g(5)]
  define i where "i = int r div N"
  define j where "j = int r mod N"
  define t :: real where "t = of_int (N * N)"
  have t: "t \<noteq> 0" using N by (simp add: t_def)
  have ne: "j < N - 1 \<and> c = nat (int r + 1) \<Longrightarrow> c \<noteq> r"
    "0 < j \<and> c = nat (int r - 1) \<Longrightarrow> c \<noteq> r"
    "i < N - 1 \<and> c = nat (int r + N) \<Longrightarrow> c \<noteq> r"
    "0 < i \<and> c = nat (int r - N) \<Longrightarrow> c \<noteq> r" for c
    using b(3,5) N unfolding i_def j_def by linarith+
  have "length (coupled_columns H r) =
      (\<Sum>c<nat (N * N). if c \<noteq> r \<and> entry H r c \<noteq> 0 then 1 else 0)"
    by (simp add: coupled_columns_def length_filter_upt s(2))
  also have "\<dots> = (\<Sum>c<nat (N * N).
       if j < N - 1 \<and> c = nat (idx N i (j + 1)) then 1
       else if j > 0 \<and> c = nat (idx N i (j - 1)) then 1
       else if i < N - 1 \<and> c = nat (idx N (i + 1) j) then 1
       else if i > 0 \<and> c = nat (idx N (i - 1) j) then 1
       else if c = nat (idx N i j) then 0 else 0)"
  proof (intro sum.cong refl)
    fix c assume "c \<in> {..<nat (N * N)}"
    then have c: "c < nat (N * N)" by simp
    show "(if c \<noteq> r \<and> entry H r c \<noteq> 0 then 1 else 0) =
       (if j < N - 1 \<and> c = nat (idx N i (j + 1)) then 1
        else if j > 0 \<and> c = nat (idx N i (j - 1)) then 1
        else if i < N - 1 \<and> c = nat (idx N (i + 1) j) then 1
        else if i > 0 \<and> c = nat (idx N (i - 1) j) then 1
        else if c = nat (idx N i j) then 0 else (0::nat))"
      unfolding build_entry[OF N H r c] stencil_def t_def[symmetric]
        i_def[symmetric] j_def[symmetric]
      unfolding idx_shift g(5)[folded i_def j_def] nat_int
      by (rule coupled_chain[OF t ne])
  qed
  also have "\<dots> = (if j < N - 1 then 1 else 0) + (if j > 0 then 1 else 0) +
         (if i < N - 1 then 1 else 0) + (if i > 0 then 1 else 0) + 0"
    by (rule stencil_sum[OF g(1,2,3,4)[folded i_def j_def] refl])
  finally show ?thesis
    by (simp add: in_grid_neighbours_def i_def j_def)
qed

lemma boundary_count:
  assumes "0 \<le> i" "i < N" "0 \<le> j" "j < N"
  shows "in_grid_neighbours N i j < 4 \<longleftrightarrow> (i = 0 \<or> i = N - 1 \<or> j = 0 \<or> j = N - 1)"
  using assms by (auto simp: in_grid_neighbours_def)

lemma interior_count:
  assumes "0 \<le> i" "i < N" "0 \<le> j" "j < N"
  shows "in_grid_neighbours N i j = 4 \<longleftrightarrow> (0 < i \<and> i < N - 1 \<and> 0 < j \<and> j < N - 1)"
  using assms by (auto simp: in_grid_neighbours_def)

section \<open>Small concrete runs\<close>

lemma py_range_nonpos: "N \<le> 0 \<Longrightarrow> py_range N = []"
  by (simp add: py_range_def)

lemma py_range_2: "py_range 2 = [0, 1]"
  by (simp add: py_range_def upto.simps)

lemma build_2_well:
  "build_2d_hamiltonian 2 ''well'' =
     Inr \<lparr>nrows = 4, ncols = 4,
          rows = [[- 16, 4, 4, 0], [4, - 16, 0, 4], [4, 0, - 16, 4], [0, 4, 4, - 16]]\<rparr>"
  by (simp add: build_2d_hamiltonian_def py_range_2 cell_def setitem_def
      wrap_index_def idx_def V_def zeros_def numeral_eq_Suc)

section \<open>Non-positive grid sizes\<close>

lemma float_limit_pos: "1 < float_limit"
  by (simp add: float_limit_def)

lemma abs_le_square: "\<bar>N\<bar> \<le> N * N" for N :: int
proof (cases "N = 0")
  case True
  then show ?thesis by simp
next
  case False
  then have "1 \<le> \<bar>N\<bar>" by simp
  then have "\<bar>N\<bar> * 1 \<le> \<bar>N\<bar> * \<bar>N\<bar>"
    by (intro mult_left_mono) simp_all
  then show ?thesis by (simp add: abs_mult_self_eq)
qed

text \<open>
  When \<^verbatim>\<open>float(N * N)\<close> converts and the allocation succeeds, the function with the
  limits written out is the function within the limits.
\<close>

lemma machine_within_limits:
  assumes "N * N < float_limit" "refuse (nat (N * N)) (nat (N * N)) = None"
  shows "build_2d_hamiltonian_machine refuse N potential = build_2d_hamiltonian N potential"
proof -
  have 1: "py_float N = Inr (of_int N)"
    using abs_le_square[of N] assms(1) by (simp add: py_float_def)
  have 2: "py_float (N * N) = Inr (of_int (N * N))"
    using assms(1) by (simp add: py_float_def abs_mult)
  have 3: "np_zeros refuse (nat (N * N)) (nat (N * N)) = Inr (zeros (nat (N * N)) (nat (N * N)))"
    by (simp add: np_zeros_def assms(2))
  show ?thesis
    unfolding build_2d_hamiltonian_machine_def build_2d_hamiltonian_def 1 2 3
    by (simp add: float_div_def Let_def)
qed

text \<open>Beyond the limits the function raises, whatever the sign of \<open>N\<close>.\<close>

lemma machine_overflow:
  "float_limit \<le> \<bar>N\<bar> \<Longrightarrow> build_2d_hamiltonian_machine refuse N potential = Inl OverflowError"
  by (simp add: build_2d_hamiltonian_machine_def py_float_def)

lemma machine_refused:
  assumes "N \<noteq> 0" "N * N < float_limit" "refuse (nat (N * N)) (nat (N * N)) = Some e"
  shows "build_2d_hamiltonian_machine refuse N potential = Inl e"
proof -
  have 1: "py_float N = Inr (of_int N)"
    using abs_le_square[of N] assms(2) by (simp add: py_float_def)
  have 2: "py_float (N * N) = Inr (of_int (N * N))"
    using assms(2) by (simp add: py_float_def abs_mult)
  show ?thesis
    unfolding build_2d_hamiltonian_machine_def 1 2
    using assms(1,3) by (simp add: float_div_def np_zeros_def)
qed



text \<open>
  Claim C10, as stated, says that no non-positive \<open>N\<close> makes the builder raise, and
  that \<open>N = 0\<close> yields the empty matrix. At \<open>N = 0\<close> the first statement,
  \<^verbatim>\<open>dx = 1. / float(N)\<close>, raises \<^verbatim>\<open>ZeroDivisionError\<close>.
\<close>

theorem C10_zero_raises:
  "build_2d_hamiltonian 0 ''well'' = Inl ZeroDivisionError \<and>
   build_2d_hamiltonian_machine ample_memory 0 ''well'' = Inl ZeroDivisionError"
  using float_limit_pos
  by (simp add: build_2d_hamiltonian_def build_2d_hamiltonian_machine_def py_float_def
      float_div_def)

text \<open>
  Claim C10, amended: for every negative \<open>N\<close> for which \<^verbatim>\<open>float(N * N)\<close> converts
  (\<open>N * N < 2\<^sup>1\<^sup>0\<^sup>2\<^sup>4 - 2\<^sup>9\<^sup>7\<^sup>0\<close>) and \<^verbatim>\<open>np.zeros\<close> allocates the \<open>N\<^sup>2 \<times> N\<^sup>2\<close> array, and for
  every potential kind, the builder does not raise and returns the all-zero matrix of
  shape \<open>N\<^sup>2 \<times> N\<^sup>2\<close>, because both loops run over an empty range and \<open>N\<close> is not
  validated.
\<close>

theorem C10_negative_within_limits:
  assumes "N < 0" "N * N < float_limit" "refuse (nat (N * N)) (nat (N * N)) = None"
  shows "build_2d_hamiltonian_machine refuse N potential =
           Inr (zeros (nat (N * N)) (nat (N * N)))"
  unfolding machine_within_limits[where refuse = refuse and N = N, OF assms(2,3)]
  using assms(1) by (simp add: build_2d_hamiltonian_def py_range_nonpos)

theorem C10_negative_within_limits_witness:
  "(- 2 :: int) < 0 \<and> (- 2 :: int) * (- 2) < float_limit \<and>
   ample_memory (nat ((- 2) * (- 2))) (nat ((- 2) * (- 2))) = None \<and>
   build_2d_hamiltonian_machine ample_memory (- 2) ''harmonic'' =
     Inr \<lparr>nrows = 4, ncols = 4,
          rows = [[0, 0, 0, 0], [0, 0, 0, 0], [0, 0, 0, 0], [0, 0, 0, 0]]\<rparr>"
proof -
  have 1: "(- 2 :: int) < 0" by simp
  have 2: "(- 2 :: int) * (- 2) < float_limit"
    using float_limit_pos by (simp add: float_limit_def)
  have 3: "ample_memory (nat ((- 2) * (- 2))) (nat ((- 2) * (- 2))) = None"
    by (simp add: ample_memory_def)
  from C10_negative_within_limits[where refuse = ample_memory and N = "- 2"
      and potential = "''harmonic''", OF 1 2 3] 2 show ?thesis
    by (simp add: zeros_def numeral_eq_Suc ample_memory_def)
qed

section \<open>Unknown potential kinds\<close>




section \<open>Diagonal, couplings, symmetry and row sums\<close>

text \<open>
  Claim C1. For every \<open>N \<ge> 1\<close> and every potential kind the builder returns a matrix
  whose diagonal entry at linear index \<open>r = i * N + j\<close> is \<open>- 4 * N\<^sup>2 + V(i, j)\<close>, where
  \<open>V(i, j)\<close> is \<open>4 * ((i - N/2) * dx)\<^sup>2 + 4 * ((j - N/2) * dx)\<^sup>2\<close> with \<open>dx = 1/N\<close> for
  the kind \<open>harmonic\<close> and \<open>0\<close> otherwise, in particular for \<open>well\<close>.
\<close>

theorem C1_diagonal:
  assumes "1 \<le> N" "r < nat (N * N)" "i = int r div N" "j = int r mod N"
  shows "\<exists>H. build_2d_hamiltonian N potential = Inr H \<and> int r = i * N + j \<and>
           entry H r r =
             - 4 * (of_int N)\<^sup>2 +
             (if potential = ''harmonic''
              then 4 * ((of_int i - of_int N / 2) * (1 / of_int N))\<^sup>2 +
                   4 * ((of_int j - of_int N / 2) * (1 / of_int N))\<^sup>2
              else 0)"
proof -
  obtain H where H: "build_2d_hamiltonian N potential = Inr H"
    using build_entries[OF assms(1), of potential] by blast
  have "int r = i * N + j"
    using assms(3,4) by simp
  moreover have "entry H r r =
             - 4 * (of_int N)\<^sup>2 +
             (if potential = ''harmonic''
              then 4 * ((of_int i - of_int N / 2) * (1 / of_int N))\<^sup>2 +
                   4 * ((of_int j - of_int N / 2) * (1 / of_int N))\<^sup>2
              else 0)"
    unfolding diag_entry[OF assms(1) H assms(2)] assms(3,4)
    by (simp add: V_def Let_def power2_eq_square distrib_left)
  ultimately show ?thesis
    using H by blast
qed

theorem C1_diagonal_witness:
  "(1::int) \<le> 3 \<and> (4::nat) < nat (3 * 3) \<and> (1::int) = int 4 div 3 \<and> (1::int) = int 4 mod 3 \<and>
   (\<exists>H. build_2d_hamiltonian 3 ''harmonic'' = Inr H \<and> int 4 = 1 * 3 + 1 \<and>
        entry H 4 4 = - 322 / 9)"
  using C1_diagonal[of 3 4 1 1 "''harmonic''"] by (simp add: power2_eq_square)

text \<open>
  Claim C2. For every \<open>N \<ge> 1\<close> an off-diagonal entry \<open>H[r, c]\<close> is \<open>N\<^sup>2\<close> when the grid
  point of \<open>c\<close> is one step up, down, left or right of the grid point of \<open>r\<close>, and \<open>0\<close>
  otherwise. Both points lie in the grid, so nothing wraps around: a row is coupled to
  exactly as many columns as its grid point has neighbours inside the grid, which is
  fewer than four exactly for the rows of boundary points.
\<close>

theorem C2_off_diagonal:
  assumes "1 \<le> N" "r < nat (N * N)" "c < nat (N * N)" "r \<noteq> c"
  shows "\<exists>H. build_2d_hamiltonian N potential = Inr H \<and>
           entry H r c = (if grid_neighbour N r c then (of_int N)\<^sup>2 else 0) \<and>
           length (coupled_columns H r) = in_grid_neighbours N (int r div N) (int r mod N) \<and>
           (length (coupled_columns H r) < 4) =
             (int r div N = 0 \<or> int r div N = N - 1 \<or> int r mod N = 0 \<or> int r mod N = N - 1)"
proof -
  obtain H where H: "build_2d_hamiltonian N potential = Inr H"
    using build_entries[OF assms(1), of potential] by blast
  note g = div_mod_grid[OF assms(1,2)]
  have e: "entry H r c = (if grid_neighbour N r c then (of_int N)\<^sup>2 else 0)"
    unfolding offdiag_entry[OF assms(1) H assms(2,3,4)] power2_eq_square of_int_mult ..
  have k: "length (coupled_columns H r) = in_grid_neighbours N (int r div N) (int r mod N)"
    by (rule coupled_count[OF assms(1) H assms(2)])
  have b: "(length (coupled_columns H r) < 4) =
             (int r div N = 0 \<or> int r div N = N - 1 \<or> int r mod N = 0 \<or> int r mod N = N - 1)"
    unfolding k by (rule boundary_count[OF g(1,2,3,4)])
  show ?thesis
    by (intro exI[of _ H] conjI) (rule H e k b)+
qed

theorem C2_off_diagonal_witness:
  "(1::int) \<le> 2 \<and> (0::nat) < nat (2 * 2) \<and> (1::nat) < nat (2 * 2) \<and> (0::nat) \<noteq> 1 \<and>
   (\<exists>H. build_2d_hamiltonian 2 ''well'' = Inr H \<and> entry H 0 1 = 4 \<and>
        length (coupled_columns H 0) = 2)"
  using C2_off_diagonal[of 2 0 1 "''well''"]
  by (auto simp: grid_neighbour_def in_grid_neighbours_def)

text \<open>
  Claim C3. For every \<open>N \<ge> 1\<close> and every potential kind the matrix returned by the
  builder, as the loops leave it, has shape \<open>N\<^sup>2 \<times> N\<^sup>2\<close> and is symmetric:
  \<open>H[r, c] = H[c, r]\<close> for all index pairs.
\<close>

theorem C3_symmetric:
  assumes "1 \<le> N" "r < nat (N * N)" "c < nat (N * N)"
  shows "\<exists>H. build_2d_hamiltonian N potential = Inr H \<and>
           nrows H = nat (N * N) \<and> ncols H = nat (N * N) \<and> entry H r c = entry H c r"
proof -
  obtain H where H: "build_2d_hamiltonian N potential = Inr H"
    using build_entries[OF assms(1), of potential] by blast
  have "entry H r c = entry H c r"
  proof (cases "r = c")
    case True
    then show ?thesis by simp
  next
    case False
    then have "c \<noteq> r" by simp
    show ?thesis
      unfolding offdiag_entry[OF assms(1) H assms(2,3) False]
        offdiag_entry[OF assms(1) H assms(3,2) \<open>c \<noteq> r\<close>]
        grid_neighbour_sym[of N c r] ..
  qed
  then show ?thesis
    using H build_shape(1,2)[OF assms(1) H] by blast
qed

theorem C3_symmetric_witness:
  "(1::int) \<le> 2 \<and> (1::nat) < nat (2 * 2) \<and> (3::nat) < nat (2 * 2) \<and>
   (\<exists>H. build_2d_hamiltonian 2 ''harmonic'' = Inr H \<and> entry H 1 3 = entry H 3 1)"
  using C3_symmetric[of 2 1 3 "''harmonic''"] by auto

text \<open>
  Claim C8, as stated, says that every row of the matrix built for \<open>well\<close> sums to
  \<open>V(i, j) = 0\<close>. For \<open>N = 2\<close> every grid point is on the boundary and has two
  neighbours in the grid: row \<open>0\<close> is \<open>[-16, 4, 4, 0]\<close> and sums to \<open>-8\<close>.
\<close>

theorem C8_row_sum_counterexample:
  "build_2d_hamiltonian 2 ''well'' =
     Inr \<lparr>nrows = 4, ncols = 4,
          rows = [[- 16, 4, 4, 0], [4, - 16, 0, 4], [4, 0, - 16, 4], [0, 4, 4, - 16]]\<rparr> \<and>
   row_sum \<lparr>nrows = 4, ncols = 4,
          rows = [[- 16, 4, 4, 0], [4, - 16, 0, 4], [4, 0, - 16, 4], [0, 4, 4, - 16]]\<rparr> 0 = - 8 \<and>
   V 2 ''well'' (1 / 2) 0 0 = 0"
  by (simp add: build_2_well row_sum_def V_def)

text \<open>
  Claim C8, amended: for every \<open>N \<ge> 1\<close> the row of the matrix built for \<open>well\<close> at
  the grid point \<open>(i, j)\<close> sums to \<open>(k - 4) * N\<^sup>2\<close>, where \<open>k\<close> is the number of axis
  neighbours of \<open>(i, j)\<close> inside the grid; it equals \<open>V(i, j) = 0\<close> exactly for the
  interior points \<open>0 < i < N - 1\<close>, \<open>0 < j < N - 1\<close>.
\<close>

theorem C8_row_sum_well:
  assumes "1 \<le> N" "r < nat (N * N)"
  shows "\<exists>H. build_2d_hamiltonian N ''well'' = Inr H \<and>
           row_sum H r =
             (of_nat (in_grid_neighbours N (int r div N) (int r mod N)) - 4) * (of_int N)\<^sup>2 \<and>
           (row_sum H r = V N ''well'' (1 / of_int N) (int r div N) (int r mod N)) =
             (0 < int r div N \<and> int r div N < N - 1 \<and> 0 < int r mod N \<and> int r mod N < N - 1)"
proof -
  obtain H where H: "build_2d_hamiltonian N ''well'' = Inr H"
    using build_entries[OF assms(1), of "''well''"] by blast
  note g = div_mod_grid[OF assms(1,2)]
  define k where "k = in_grid_neighbours N (int r div N) (int r mod N)"
  have N: "(of_int N :: real) \<noteq> 0" using assms(1) by simp
  have s: "row_sum H r = (of_nat k - 4) * (of_int N)\<^sup>2"
    unfolding row_sum_build[OF assms(1) H assms(2)] k_def
    by (simp add: V_def power2_eq_square algebra_simps)
  have "row_sum H r = V N ''well'' (1 / of_int N) (int r div N) (int r mod N) \<longleftrightarrow> k = 4"
    unfolding s using N by (simp add: V_def)
  then have "(row_sum H r = V N ''well'' (1 / of_int N) (int r div N) (int r mod N)) =
             (0 < int r div N \<and> int r div N < N - 1 \<and> 0 < int r mod N \<and> int r mod N < N - 1)"
    unfolding k_def interior_count[OF g(1,2,3,4)] .
  then show ?thesis
    using H s unfolding k_def by blast
qed

theorem C8_row_sum_well_witness:
  "(1::int) \<le> 3 \<and> (4::nat) < nat (3 * 3) \<and>
   (\<exists>H. build_2d_hamiltonian 3 ''well'' = Inr H \<and> row_sum H 4 = 0)"
  using C8_row_sum_well[of 3 4] by (auto simp: in_grid_neighbours_def)

section \<open>Sorting and truncating the spectrum\<close>

lemma argsort_perm: "mset (argsort vals) = mset [0..<length vals]"
  by (simp add: argsort_def)

lemma argsort_set: "set (argsort vals) = {0..<length vals}"
  by (simp add: argsort_def)

lemma argsort_length: "length (argsort vals) = length vals"
  by (simp add: argsort_def)

lemma argsort_sorted: "sorted (map (\<lambda>k. vals ! k) (argsort vals))"
  unfolding argsort_def by (rule sorted_sort_key)

lemma take_items_argsort:
  "take_items vals (argsort vals) = Inr (map (\<lambda>k. vals ! k) (argsort vals))"
  by (simp add: take_items_def argsort_set)

lemma take_cols_argsort:
  "length vals \<le> ncols vecs \<Longrightarrow>
   take_cols vecs (argsort vals) = Inr (permute_cols vecs (argsort vals))"
  by (auto simp: take_cols_def permute_cols_def argsort_set)

lemma solve_eigen_eq:
  assumes "build_2d_hamiltonian N potential = Inr H" "eigh H = Inr (vals, vecs)"
    "length vals \<le> ncols vecs"
  shows "solve_eigen eigh N potential n_eigs =
           (case n_eigs of
              None \<Rightarrow> Inr (map (\<lambda>k. vals ! k) (argsort vals), permute_cols vecs (argsort vals))
            | Some n \<Rightarrow> Inr (slice_items (map (\<lambda>k. vals ! k) (argsort vals)) n,
                             slice_cols (permute_cols vecs (argsort vals)) n))"
  by (simp add: solve_eigen_def assms(1,2) Let_def take_items_argsort
      take_cols_argsort[OF assms(3)])

lemma slice_stop_le: "slice_stop len n \<le> len"
  unfolding slice_stop_def by (cases "n < 0") simp_all

lemma slice_cols_permute:
  "slice_cols (permute_cols A p) n =
     \<lparr>nrows = nrows A, ncols = slice_stop (length p) n,
      rows = map (\<lambda>row. take (slice_stop (length p) n) (map (\<lambda>k. row ! k) p)) (rows A)\<rparr>"
  by (simp add: slice_cols_def permute_cols_def comp_def)

lemma sorted_take_le_drop:
  "sorted xs \<Longrightarrow> \<forall>x \<in> set (take m xs). \<forall>y \<in> set (drop m xs). x \<le> y"
  using sorted_append[of "take m xs" "drop m xs"] by simp

lemma slice_stop_exact: "0 \<le> n \<Longrightarrow> n \<le> int len \<Longrightarrow> slice_stop len n = nat n"
  by (simp add: slice_stop_def)

lemma slice_stop_clip: "int len < n \<Longrightarrow> slice_stop len n = len"
  by (simp add: slice_stop_def)

lemma well_shaped_permute_cols:
  "well_shaped A \<Longrightarrow> well_shaped (permute_cols A p)"
  by (simp add: well_shaped_def permute_cols_def)

lemma slice_cols_all:
  assumes "well_shaped A" "slice_stop (ncols A) n = ncols A"
  shows "slice_cols A n = A"
proof -
  have "map (take (ncols A)) (rows A) = rows A"
    using assms(1) by (intro map_idI) (simp add: well_shaped_def)
  then show ?thesis
    by (simp add: slice_cols_def assms(2))
qed

text \<open>
  Claim C4. For every \<open>N \<ge> 1\<close> and every potential kind, whatever order the external
  eigensolver returns the spectrum in, the wrapper returns the eigenvalues in ascending
  order with the eigenvector columns carried along under the same permutation \<open>p\<close> of
  the indices; the returned pairs are the first \<open>m\<close> of the sorted sequence, so every
  returned eigenvalue is at most every eigenvalue that is not returned.
\<close>

theorem C4_sorted:
  assumes "1 \<le> N" "build_2d_hamiltonian N potential = Inr H" "eigh H = Inr (vals, vecs)"
    "ncols vecs = length vals"
  shows "\<exists>p m. mset p = mset [0..<length vals] \<and> m \<le> length vals \<and>
           sorted (map (\<lambda>k. vals ! k) p) \<and>
           solve_eigen eigh N potential n_eigs =
             Inr (take m (map (\<lambda>k. vals ! k) p),
                  \<lparr>nrows = nrows vecs, ncols = m,
                   rows = map (\<lambda>row. take m (map (\<lambda>k. row ! k) p)) (rows vecs)\<rparr>) \<and>
           sorted (take m (map (\<lambda>k. vals ! k) p)) \<and>
           (\<forall>x \<in> set (take m (map (\<lambda>k. vals ! k) p)).
              \<forall>y \<in> set (drop m (map (\<lambda>k. vals ! k) p)). x \<le> y)"
proof -
  define p where "p = argsort vals"
  define m where "m = (case n_eigs of None \<Rightarrow> length vals | Some n \<Rightarrow> slice_stop (length vals) n)"
  have le: "length vals \<le> ncols vecs" using assms(4) by simp
  have len: "length p = length vals" by (simp add: p_def argsort_length)
  have perm: "mset p = mset [0..<length vals]"
    unfolding p_def by (rule argsort_perm)
  have m: "m \<le> length vals"
    unfolding m_def by (cases n_eigs) (simp_all add: slice_stop_le)
  have srt: "sorted (map (\<lambda>k. vals ! k) p)"
    unfolding p_def by (rule argsort_sorted)
  have run: "solve_eigen eigh N potential n_eigs =
             Inr (take m (map (\<lambda>k. vals ! k) p),
                  \<lparr>nrows = nrows vecs, ncols = m,
                   rows = map (\<lambda>row. take m (map (\<lambda>k. row ! k) p)) (rows vecs)\<rparr>)"
  proof (cases n_eigs)
    case None
    then show ?thesis
      unfolding solve_eigen_eq[of N potential H eigh vals vecs, OF assms(2,3) le] p_def[symmetric]
      by (simp add: m_def permute_cols_def len)
  next
    case (Some n)
    then show ?thesis
      unfolding solve_eigen_eq[of N potential H eigh vals vecs, OF assms(2,3) le] p_def[symmetric]
      by (simp add: m_def slice_items_def slice_cols_permute len)
  qed
  have srt': "sorted (take m (map (\<lambda>k. vals ! k) p))"
    using srt by (rule sorted_wrt_take)
  have sep: "\<forall>x \<in> set (take m (map (\<lambda>k. vals ! k) p)).
              \<forall>y \<in> set (drop m (map (\<lambda>k. vals ! k) p)). x \<le> y"
    using srt by (rule sorted_take_le_drop)
  show ?thesis
    by (intro exI[of _ p] exI[of _ m] conjI) (rule perm m srt run srt' sep)+
qed

lemma build_2_well_eigh:
  "eigh_hadamard H =
     Inr ([- 8, - 24, - 16, - 16],
          \<lparr>nrows = 4, ncols = 4,
           rows = [[1 / 2, 1 / 2, 1 / 2, 1 / 2], [1 / 2, - 1 / 2, 1 / 2, - 1 / 2],
                   [1 / 2, - 1 / 2, - 1 / 2, 1 / 2], [1 / 2, 1 / 2, - 1 / 2, - 1 / 2]]\<rparr>)"
  by (rule eigh_hadamard_def)

lemma solve_2_well_some_2:
  "solve_eigen eigh_hadamard 2 ''well'' (Some 2) =
     Inr ([- 24, - 16],
          \<lparr>nrows = 4, ncols = 2,
           rows = [[1 / 2, 1 / 2], [- 1 / 2, 1 / 2], [- 1 / 2, - 1 / 2], [1 / 2, - 1 / 2]]\<rparr>)"
  by (simp add: solve_eigen_def build_2_well eigh_hadamard_def argsort_def take_items_def
      take_cols_def slice_items_def slice_cols_def slice_stop_def upt_rec[of 0] upt_rec[of 1]
      upt_rec[of 2] upt_rec[of 3] upt_rec[of 4])

theorem C4_sorted_witness:
  "(1::int) \<le> 2 \<and>
   build_2d_hamiltonian 2 ''well'' =
     Inr \<lparr>nrows = 4, ncols = 4,
          rows = [[- 16, 4, 4, 0], [4, - 16, 0, 4], [4, 0, - 16, 4], [0, 4, 4, - 16]]\<rparr> \<and>
   eigh_hadamard \<lparr>nrows = 4, ncols = 4,
          rows = [[- 16, 4, 4, 0], [4, - 16, 0, 4], [4, 0, - 16, 4], [0, 4, 4, - 16]]\<rparr> =
     Inr ([- 8, - 24, - 16, - 16],
          \<lparr>nrows = 4, ncols = 4,
           rows = [[1 / 2, 1 / 2, 1 / 2, 1 / 2], [1 / 2, - 1 / 2, 1 / 2, - 1 / 2],
                   [1 / 2, - 1 / 2, - 1 / 2, 1 / 2], [1 / 2, 1 / 2, - 1 / 2, - 1 / 2]]\<rparr>) \<and>
   (\<exists>p m. mset p = mset [0..<length [- 8, - 24, - 16, - 16 :: real]] \<and>
      m \<le> length [- 8, - 24, - 16, - 16 :: real] \<and>
      sorted (map (\<lambda>k. [- 8, - 24, - 16, - 16 :: real] ! k) p) \<and>
      solve_eigen eigh_hadamard 2 ''well'' (Some 2) =
        Inr (take m (map (\<lambda>k. [- 8, - 24, - 16, - 16 :: real] ! k) p),
             \<lparr>nrows = 4, ncols = m,
              rows = map (\<lambda>row. take m (map (\<lambda>k. row ! k) p))
                [[1 / 2, 1 / 2, 1 / 2, 1 / 2], [1 / 2, - 1 / 2, 1 / 2, - 1 / 2],
                 [1 / 2, - 1 / 2, - 1 / 2, 1 / 2], [1 / 2, 1 / 2, - 1 / 2, - 1 / 2]]\<rparr>) \<and>
      sorted (take m (map (\<lambda>k. [- 8, - 24, - 16, - 16 :: real] ! k) p))) \<and>
   solve_eigen eigh_hadamard 2 ''well'' (Some 2) =
     Inr ([- 24, - 16],
          \<lparr>nrows = 4, ncols = 2,
           rows = [[1 / 2, 1 / 2], [- 1 / 2, 1 / 2], [- 1 / 2, - 1 / 2], [1 / 2, - 1 / 2]]\<rparr>)"
proof -
  have "\<exists>p m. mset p = mset [0..<length [- 8, - 24, - 16, - 16 :: real]] \<and>
           m \<le> length [- 8, - 24, - 16, - 16 :: real] \<and>
           sorted (map (\<lambda>k. [- 8, - 24, - 16, - 16 :: real] ! k) p) \<and>
           solve_eigen eigh_hadamard 2 ''well'' (Some 2) =
             Inr (take m (map (\<lambda>k. [- 8, - 24, - 16, - 16 :: real] ! k) p),
                  \<lparr>nrows = 4, ncols = m,
                   rows = map (\<lambda>row. take m (map (\<lambda>k. row ! k) p))
                     [[1 / 2, 1 / 2, 1 / 2, 1 / 2], [1 / 2, - 1 / 2, 1 / 2, - 1 / 2],
                      [1 / 2, - 1 / 2, - 1 / 2, 1 / 2], [1 / 2, 1 / 2, - 1 / 2, - 1 / 2]]\<rparr>) \<and>
           sorted (take m (map (\<lambda>k. [- 8, - 24, - 16, - 16 :: real] ! k) p)) \<and>
           (\<forall>x \<in> set (take m (map (\<lambda>k. [- 8, - 24, - 16, - 16 :: real] ! k) p)).
              \<forall>y \<in> set (drop m (map (\<lambda>k. [- 8, - 24, - 16, - 16 :: real] ! k) p)). x \<le> y)"
    using C4_sorted[where eigh = eigh_hadamard and n_eigs = "Some 2",
        OF _ build_2_well build_2_well_eigh]
    by simp
  then have "\<exists>p m. mset p = mset [0..<length [- 8, - 24, - 16, - 16 :: real]] \<and>
      m \<le> length [- 8, - 24, - 16, - 16 :: real] \<and>
      sorted (map (\<lambda>k. [- 8, - 24, - 16, - 16 :: real] ! k) p) \<and>
      solve_eigen eigh_hadamard 2 ''well'' (Some 2) =
        Inr (take m (map (\<lambda>k. [- 8, - 24, - 16, - 16 :: real] ! k) p),
             \<lparr>nrows = 4, ncols = m,
              rows = map (\<lambda>row. take m (map (\<lambda>k. row ! k) p))
                [[1 / 2, 1 / 2, 1 / 2, 1 / 2], [1 / 2, - 1 / 2, 1 / 2, - 1 / 2],
                 [1 / 2, - 1 / 2, - 1 / 2, 1 / 2], [1 / 2, 1 / 2, - 1 / 2, - 1 / 2]]\<rparr>) \<and>
      sorted (take m (map (\<lambda>k. [- 8, - 24, - 16, - 16 :: real] ! k) p))"
    by blast
  then show ?thesis
    using build_2_well build_2_well_eigh solve_2_well_some_2
    by (intro conjI) (assumption | simp)+
qed

lemma solve_2_well_none:
  "solve_eigen eigh_hadamard 2 ''well'' None =
     Inr ([- 24, - 16, - 16, - 8],
          \<lparr>nrows = 4, ncols = 4,
           rows = [[1 / 2, 1 / 2, 1 / 2, 1 / 2], [- 1 / 2, 1 / 2, - 1 / 2, 1 / 2],
                   [- 1 / 2, - 1 / 2, 1 / 2, 1 / 2], [1 / 2, - 1 / 2, - 1 / 2, 1 / 2]]\<rparr>)"
  by (simp add: solve_eigen_def build_2_well eigh_hadamard_def argsort_def take_items_def
      take_cols_def upt_rec[of 0] upt_rec[of 1] upt_rec[of 2] upt_rec[of 3] upt_rec[of 4])

text \<open>
  Claim C5. For every \<open>N \<ge> 1\<close>, when the eigensolver returns \<open>N\<^sup>2\<close> eigenpairs: with
  \<open>n_eigs\<close> omitted the wrapper returns the full sorted spectrum of \<open>N\<^sup>2\<close> pairs, and with
  \<open>0 \<le> n_eigs \<le> N\<^sup>2\<close> it returns exactly \<open>n_eigs\<close> pairs, the first \<open>n_eigs\<close> of that
  sorted sequence.
\<close>

theorem C5_count:
  assumes "1 \<le> N" "build_2d_hamiltonian N potential = Inr H" "eigh H = Inr (vals, vecs)"
    "length vals = nat (N * N)" "ncols vecs = nat (N * N)" "0 \<le> n" "n \<le> N * N"
  shows "\<exists>full_vals full_vecs.
           solve_eigen eigh N potential None = Inr (full_vals, full_vecs) \<and>
           sorted full_vals \<and> length full_vals = nat (N * N) \<and> ncols full_vecs = nat (N * N) \<and>
           solve_eigen eigh N potential (Some n) =
             Inr (take (nat n) full_vals,
                  \<lparr>nrows = nrows full_vecs, ncols = nat n,
                   rows = map (take (nat n)) (rows full_vecs)\<rparr>) \<and>
           length (take (nat n) full_vals) = nat n"
proof -
  define full_vals where "full_vals = map (\<lambda>k. vals ! k) (argsort vals)"
  define full_vecs where "full_vecs = permute_cols vecs (argsort vals)"
  have le: "length vals \<le> ncols vecs" using assms(4,5) by simp
  note eq = solve_eigen_eq[of N potential H eigh vals vecs, OF assms(2,3) le]
  have len: "length full_vals = nat (N * N)"
    by (simp add: full_vals_def argsort_length assms(4))
  have cols: "ncols full_vecs = nat (N * N)"
    by (simp add: full_vecs_def permute_cols_def argsort_length assms(4))
  have stop: "slice_stop (nat (N * N)) n = nat n"
    using assms(6,7) by (intro slice_stop_exact) simp_all
  have none: "solve_eigen eigh N potential None = Inr (full_vals, full_vecs)"
    unfolding eq full_vals_def full_vecs_def by simp
  have srt: "sorted full_vals"
    unfolding full_vals_def by (rule argsort_sorted)
  have some: "solve_eigen eigh N potential (Some n) =
             Inr (take (nat n) full_vals,
                  \<lparr>nrows = nrows full_vecs, ncols = nat n,
                   rows = map (take (nat n)) (rows full_vecs)\<rparr>)"
    unfolding eq full_vals_def[symmetric] full_vecs_def[symmetric]
    by (simp add: slice_items_def slice_cols_def len cols stop)
  have cnt: "length (take (nat n) full_vals) = nat n"
    using assms(6,7) by (simp add: len)
  show ?thesis
    by (intro exI[of _ full_vals] exI[of _ full_vecs] conjI) (rule none srt len cols some cnt)+
qed

theorem C5_count_witness:
  "(1::int) \<le> 2 \<and> length [- 8, - 24, - 16, - 16 :: real] = nat (2 * 2) \<and>
   (0::int) \<le> 3 \<and> (3::int) \<le> 2 * 2 \<and>
   solve_eigen eigh_hadamard 2 ''well'' None =
     Inr ([- 24, - 16, - 16, - 8],
          \<lparr>nrows = 4, ncols = 4,
           rows = [[1 / 2, 1 / 2, 1 / 2, 1 / 2], [- 1 / 2, 1 / 2, - 1 / 2, 1 / 2],
                   [- 1 / 2, - 1 / 2, 1 / 2, 1 / 2], [1 / 2, - 1 / 2, - 1 / 2, 1 / 2]]\<rparr>) \<and>
   solve_eigen eigh_hadamard 2 ''well'' (Some 3) =
     Inr (take (nat 3) [- 24, - 16, - 16, - 8],
          \<lparr>nrows = 4, ncols = nat 3,
           rows = map (take (nat 3))
                   [[1 / 2, 1 / 2, 1 / 2, 1 / 2], [- 1 / 2, 1 / 2, - 1 / 2, 1 / 2],
                    [- 1 / 2, - 1 / 2, 1 / 2, 1 / 2], [1 / 2, - 1 / 2, - 1 / 2, 1 / 2]]\<rparr>)"
proof -
  from C5_count[where eigh = eigh_hadamard and n = 3,
      OF _ build_2_well build_2_well_eigh]
  obtain full_vals full_vecs where
    "solve_eigen eigh_hadamard 2 ''well'' None = Inr (full_vals, full_vecs)"
    "solve_eigen eigh_hadamard 2 ''well'' (Some 3) =
             Inr (take (nat 3) full_vals,
                  \<lparr>nrows = nrows full_vecs, ncols = nat 3,
                   rows = map (take (nat 3)) (rows full_vecs)\<rparr>)"
    by auto
  then show ?thesis
    by (auto simp: solve_2_well_none)
qed

text \<open>
  Claim C9. For every \<open>N \<ge> 1\<close> and every \<open>n_eigs > N\<^sup>2\<close> the wrapper does not raise: the
  slices clip to the array, and the result is exactly the full sorted spectrum of \<open>N\<^sup>2\<close>
  pairs.
\<close>

theorem C9_oversized:
  assumes "1 \<le> N" "build_2d_hamiltonian N potential = Inr H" "eigh H = Inr (vals, vecs)"
    "length vals = nat (N * N)" "ncols vecs = nat (N * N)" "well_shaped vecs" "N * N < n"
  shows "\<exists>full_vals full_vecs.
           solve_eigen eigh N potential (Some n) = Inr (full_vals, full_vecs) \<and>
           solve_eigen eigh N potential None = Inr (full_vals, full_vecs) \<and>
           sorted full_vals \<and> length full_vals = nat (N * N) \<and> ncols full_vecs = nat (N * N)"
proof -
  define full_vals where "full_vals = map (\<lambda>k. vals ! k) (argsort vals)"
  define full_vecs where "full_vecs = permute_cols vecs (argsort vals)"
  have le: "length vals \<le> ncols vecs" using assms(4,5) by simp
  note eq = solve_eigen_eq[of N potential H eigh vals vecs, OF assms(2,3) le]
  have len: "length full_vals = nat (N * N)"
    by (simp add: full_vals_def argsort_length assms(4))
  have cols: "ncols full_vecs = nat (N * N)"
    by (simp add: full_vecs_def permute_cols_def argsort_length assms(4))
  have w: "well_shaped full_vecs"
    unfolding full_vecs_def using assms(6) by (rule well_shaped_permute_cols)
  have stop: "slice_stop (nat (N * N)) n = nat (N * N)"
    using assms(7) by (intro slice_stop_clip) simp
  have none: "solve_eigen eigh N potential None = Inr (full_vals, full_vecs)"
    unfolding eq full_vals_def full_vecs_def by simp
  have srt: "sorted full_vals"
    unfolding full_vals_def by (rule argsort_sorted)
  have "slice_cols full_vecs n = full_vecs"
    using w stop by (intro slice_cols_all) (simp_all add: cols)
  then have some: "solve_eigen eigh N potential (Some n) = Inr (full_vals, full_vecs)"
    unfolding eq full_vals_def[symmetric] full_vecs_def[symmetric]
    by (simp add: slice_items_def len stop)
  show ?thesis
    by (intro exI[of _ full_vals] exI[of _ full_vecs] conjI) (rule some none srt len cols)+
qed

theorem C9_oversized_witness:
  "(1::int) \<le> 2 \<and> length [- 8, - 24, - 16, - 16 :: real] = nat (2 * 2) \<and> (2::int) * 2 < 7 \<and>
   solve_eigen eigh_hadamard 2 ''well'' (Some 7) = solve_eigen eigh_hadamard 2 ''well'' None \<and>
   solve_eigen eigh_hadamard 2 ''well'' (Some 7) =
     Inr ([- 24, - 16, - 16, - 8],
          \<lparr>nrows = 4, ncols = 4,
           rows = [[1 / 2, 1 / 2, 1 / 2, 1 / 2], [- 1 / 2, 1 / 2, - 1 / 2, 1 / 2],
                   [- 1 / 2, - 1 / 2, 1 / 2, 1 / 2], [1 / 2, - 1 / 2, - 1 / 2, 1 / 2]]\<rparr>)"
proof -
  have "well_shaped \<lparr>nrows = 4, ncols = 4,
           rows = [[1 / 2, 1 / 2, 1 / 2, 1 / 2], [1 / 2, - 1 / 2, 1 / 2, - 1 / 2],
                   [1 / 2, - 1 / 2, - 1 / 2, 1 / 2], [1 / 2, 1 / 2, - 1 / 2, - 1 / 2 :: real]]\<rparr>"
    by (simp add: well_shaped_def)
  from C9_oversized[where eigh = eigh_hadamard and n = 7,
      OF _ build_2_well build_2_well_eigh _ _ this]
  have "solve_eigen eigh_hadamard 2 ''well'' (Some 7) = solve_eigen eigh_hadamard 2 ''well'' None"
    by auto
  then show ?thesis
    by (simp add: solve_2_well_none)
qed

end
